theory Spec2Isabelle
  imports Main
begin

section \<open>Values, closures and foreign code\<close>

text \<open>
  Addresses of \<open>HelloPromise\<close> instances, of the \<open>wasCalled\<close> variables that
  \<open>_handleThen\<close> allocates, and of foreign objects and functions.
\<close>

type_synonym pid = nat
type_synonym lid = nat
type_synonym oid = nat

text \<open>
  JavaScript values. \<open>VPromise p\<close> is the instance at address \<open>p\<close> (so \<open>===\<close> on
  instances is equality of addresses), \<open>VObj ob\<close> a foreign object or function,
  \<open>VTypeError\<close> the object made by \<open>new TypeError(msg)\<close>. A \<open>closure\<close> is one of the
  arrow functions of \<open>HelloPromise.js\<close> together with what it captured:
  \<^item> \<open>FResolver p\<close>, \<open>FReject p\<close>, \<open>FThen p\<close>: \<open>_resolver\<close>, \<open>_reject\<close>, \<open>then\<close> of instance \<open>p\<close>;
  \<^item> \<open>FMember fn fallback resolve reject\<close>: the function \<open>member(fn, fallback)\<close> returns
    inside \<open>then\<close>;
  \<^item> \<open>FThenExecutor p onFulfilled onRejected\<close>: the executor \<open>then\<close> hands to the constructor;
  \<^item> \<open>FOnceResolver l p\<close>, \<open>FOnceReject l p\<close>: the two callbacks \<open>_handleThen\<close> hands to a
    foreign \<open>then\<close>, sharing the variable \<open>wasCalled\<close> at \<open>l\<close>;
  \<^item> \<open>FStaticResolve\<close>, \<open>FStaticReject\<close> and their executors \<open>FResolveExecutor value\<close>,
    \<open>FRejectExecutor reason\<close>: the static \<open>resolve\<close> and \<open>reject\<close>.
\<close>

datatype val =
    VUndefined | VNull | VBool bool | VNum int | VStr string
  | VTypeError string
  | VPromise pid
  | VObj oid
  | VClosure closure
and closure =
    FResolver pid
  | FReject pid
  | FThen pid
  | FMember val val val val
  | FThenExecutor pid val val
  | FOnceResolver lid pid
  | FOnceReject lid pid
  | FStaticResolve
  | FStaticReject
  | FResolveExecutor val
  | FRejectExecutor val

text \<open>
  Code the library calls but does not contain (executors, handlers, the \<open>then\<close> of a
  foreign thenable, getters) is a list of statements over the arguments of the call and
  variables shared by all foreign code (what JavaScript closures capture):
  \<open>Call x f es\<close> is \<open>x = f(es)\<close>, \<open>New x e\<close> is \<open>x = new HelloPromise(e)\<close>,
  \<open>Defer f es\<close> is \<open>setTimeout(() => f(es), 0)\<close>. Falling off the end returns
  \<open>undefined\<close>. No statement reads \<open>this\<close>.
\<close>

datatype expr = Lit val | Arg nat | Var nat

datatype stmt =
    Call nat expr "expr list"
  | Assign nat expr
  | New nat expr
  | Defer expr "expr list"
  | Throw expr
  | Return expr

text \<open>
  A foreign object: its \<open>then\<close> property (absent, a data property, or an accessor whose
  getter runs on every read) and, when it is callable, its body.
\<close>

datatype property = Absent | Data val | Getter "stmt list"

record obj =
  then_prop :: property
  body :: "stmt list option"

section \<open>The state of the program\<close>

datatype pstate = Pending | Rejected | Resolved

record callback =
  onFulfilled :: val
  onRejected :: val

datatype member = OnFulfilled | OnRejected

text \<open>
  The fields \<open>value\<close>, \<open>state\<close> and \<open>callbacks\<close> of an instance.\<close>

record promise =
  value_p :: val
  state :: pstate
  callbacks :: "callback list"

text \<open>
  A unit of work handed to \<open>setTimeout(fn, 0)\<close>: the closure \<open>fire\<close> of
  \<open>_executeCallbacks\<close> (it captured \<open>this\<close> and \<open>member\<close>), or a deferred foreign call.
\<close>

datatype task = TFire pid member | TCall val "val list"

text \<open>
  What an observer of a run sees, in order: a read of \<open>value.then\<close> by \<open>_handleThen\<close>,
  a callback pushed by \<open>_addCallback\<close>, a callback shifted and called by \<open>fire\<close>, a
  foreign function entered. The trace is written and never read by the methods below;
  only the statements of the properties read it.
\<close>

datatype event =
    EvGetThen val
  | EvRegister pid callback
  | EvFire pid callback
  | EvInvoke oid "val list"

record world =
  promises :: "pid \<Rightarrow> promise"
  nextp :: pid
  wasCalled :: "lid \<Rightarrow> bool"
  nextl :: lid
  objs :: "oid \<Rightarrow> obj"
  vars :: "nat \<Rightarrow> val"
  tasks :: "task list"
  trace :: "event list"

text \<open>
  A call returns a value or throws one; \<open>None\<close> is a call that did not finish within
  the fuel it was given. Each nested call, each statement of foreign code and each
  iteration of the loop of \<open>fire\<close> takes one unit.
\<close>

datatype completion = Ret val world | Thrown val world

type_synonym result = "completion option"

fun world_of :: "completion \<Rightarrow> world" where
  "world_of (Ret v s) = s"
| "world_of (Thrown v s) = s"

section \<open>typeof, truthiness, arguments\<close>

fun isFunction :: "world \<Rightarrow> val \<Rightarrow> bool" where
  "isFunction s (VClosure c) = True"
| "isFunction s (VObj ob) = (body (objs s ob) \<noteq> None)"
| "isFunction s v = False"

fun isObject :: "world \<Rightarrow> val \<Rightarrow> bool" where
  "isObject s VNull = True"
| "isObject s (VTypeError m) = True"
| "isObject s (VPromise p) = True"
| "isObject s (VObj ob) = (body (objs s ob) = None)"
| "isObject s v = False"

fun isPromise :: "val \<Rightarrow> bool" where
  "isPromise (VPromise p) = True"
| "isPromise v = False"

fun truthy :: "val \<Rightarrow> bool" where
  "truthy VUndefined = False"
| "truthy VNull = False"
| "truthy (VBool b) = b"
| "truthy (VNum n) = (n \<noteq> 0)"
| "truthy (VStr t) = (t \<noteq> [])"
| "truthy v = True"

text \<open>
  The value of \<open>value.then\<close> where no foreign property is involved: the method of an
  instance, \<open>undefined\<close> on everything else the library or the language makes.
\<close>

fun thenOf :: "val \<Rightarrow> val" where
  "thenOf (VPromise q) = VClosure (FThen q)"
| "thenOf v = VUndefined"

definition arg :: "nat \<Rightarrow> val list \<Rightarrow> val" where
  "arg i args = (if i < length args then args ! i else VUndefined)"

fun evalE :: "val list \<Rightarrow> world \<Rightarrow> expr \<Rightarrow> val" where
  "evalE args s (Lit v) = v"
| "evalE args s (Arg i) = arg i args"
| "evalE args s (Var x) = vars s x"

section \<open>The methods that call no foreign code\<close>

definition runAsync :: "task \<Rightarrow> world \<Rightarrow> world" where
  "runAsync t s = s\<lparr>tasks := tasks s @ [t]\<rparr>"

definition executeCallbacks :: "pid \<Rightarrow> world \<Rightarrow> world" where
  "executeCallbacks p s =
     (if state (promises s p) = Pending then s
      else runAsync
             (TFire p (if state (promises s p) = Resolved then OnFulfilled else OnRejected)) s)"

definition addCallback :: "pid \<Rightarrow> callback \<Rightarrow> world \<Rightarrow> world" where
  "addCallback p cb s =
     executeCallbacks p
       (s\<lparr>promises := (promises s)
              (p := (promises s p)\<lparr>callbacks := callbacks (promises s p) @ [cb]\<rparr>),
          trace := trace s @ [EvRegister p cb]\<rparr>)"

definition transition :: "pid \<Rightarrow> pstate \<Rightarrow> val \<Rightarrow> world \<Rightarrow> world" where
  "transition p st v s =
     (if state (promises s p) \<noteq> Pending then s
      else executeCallbacks p
             (s\<lparr>promises := (promises s)(p := (promises s p)\<lparr>value_p := v, state := st\<rparr>)\<rparr>))"

definition fulfill :: "pid \<Rightarrow> val \<Rightarrow> world \<Rightarrow> world" where
  "fulfill p v s = transition p Resolved v s"

definition reject :: "pid \<Rightarrow> val \<Rightarrow> world \<Rightarrow> world" where
  "reject p r s = transition p Rejected r s"

text \<open>
  \<open>once\<close> of \<open>_handleThen\<close>: \<open>if (wasCalled) return; fn(); wasCalled = true\<close>. The
  variable is set after \<open>fn\<close> has returned, and not at all when \<open>fn\<close> throws.
\<close>

definition once :: "lid \<Rightarrow> (world \<Rightarrow> result) \<Rightarrow> world \<Rightarrow> result" where
  "once l fn s =
     (if wasCalled s l then Some (Ret VUndefined s)
      else (case fn s of
              None \<Rightarrow> None
            | Some (Thrown e s1) \<Rightarrow> Some (Thrown e s1)
            | Some (Ret r s1) \<Rightarrow> Some (Ret VUndefined (s1\<lparr>wasCalled := (wasCalled s1)(l := True)\<rparr>))))"

definition typeError :: "world \<Rightarrow> result" where
  "typeError s = Some (Thrown (VTypeError ''not a function'') s)"

section \<open>The methods that may call foreign code\<close>

text \<open>
  \<^item> \<open>call n f args\<close> applies the value \<open>f\<close>: one case for each arrow function of the
    source (its body, over what it captured), the body of a foreign function, and a
    TypeError for a value that is not callable. A missing argument is \<open>undefined\<close>.
  \<^item> \<open>resolver n p v\<close> is \<open>_resolver(value)\<close> of instance \<open>p\<close>, its four cases in the
    order of the source: the instance itself, an instance (\<open>value.then(this._resolver,
    this._reject)\<close>), a non-null object or a function (\<open>_handleThen\<close>), anything else.
  \<^item> \<open>handleThen n p v\<close> is \<open>_handleThen(value)\<close>: a new \<open>wasCalled\<close> variable, the read
    of \<open>value.then\<close>, then the rest of the \<open>try\<close> block, with the \<open>catch\<close> as the
    branches for a read or a call that throws.
  \<^item> \<open>getThen n v\<close> is the read \<open>value.then\<close>, which runs the getter of an accessor.
  \<^item> \<open>construct n executor\<close> is \<open>new HelloPromise(executor)\<close>.
  \<^item> \<open>run n code args\<close> runs foreign statements.
\<close>

function call :: "nat \<Rightarrow> val \<Rightarrow> val list \<Rightarrow> world \<Rightarrow> result"
and resolver :: "nat \<Rightarrow> pid \<Rightarrow> val \<Rightarrow> world \<Rightarrow> result"
and handleThen :: "nat \<Rightarrow> pid \<Rightarrow> val \<Rightarrow> world \<Rightarrow> result"
and getThen :: "nat \<Rightarrow> val \<Rightarrow> world \<Rightarrow> result"
and construct :: "nat \<Rightarrow> val \<Rightarrow> world \<Rightarrow> result"
and run :: "nat \<Rightarrow> stmt list \<Rightarrow> val list \<Rightarrow> world \<Rightarrow> result"
where
  "call 0 f args s = None"
| "call (Suc n) f args s =
     (case f of
        VClosure c \<Rightarrow>
          (case c of
             FResolver p \<Rightarrow> resolver n p (arg 0 args) s
           | FReject p \<Rightarrow> Some (Ret VUndefined (reject p (arg 0 args) s))
           | FThen p \<Rightarrow> construct n (VClosure (FThenExecutor p (arg 0 args) (arg 1 args))) s
           | FThenExecutor p onF onR \<Rightarrow>
               Some (Ret VUndefined
                 (addCallback p
                    \<lparr>onFulfilled = VClosure (FMember onF (arg 0 args) (arg 0 args) (arg 1 args)),
                     onRejected = VClosure (FMember onR (arg 1 args) (arg 0 args) (arg 1 args))\<rparr> s))
           | FMember fn fallback resolve rej \<Rightarrow>
               if \<not> isFunction s fn then call n fallback [arg 0 args] s
               else (case call n fn [arg 0 args] s of
                       None \<Rightarrow> None
                     | Some (Thrown reason s1) \<Rightarrow> call n rej [reason] s1
                     | Some (Ret r s1) \<Rightarrow>
                         (case call n resolve [r] s1 of
                            None \<Rightarrow> None
                          | Some (Thrown reason s2) \<Rightarrow> call n rej [reason] s2
                          | Some (Ret r2 s2) \<Rightarrow> Some (Ret VUndefined s2)))
           | FOnceResolver l p \<Rightarrow> once l (resolver n p (arg 0 args)) s
           | FOnceReject l p \<Rightarrow>
               once l (\<lambda>s1. Some (Ret VUndefined (reject p (arg 0 args) s1))) s
           | FStaticResolve \<Rightarrow> construct n (VClosure (FResolveExecutor (arg 0 args))) s
           | FStaticReject \<Rightarrow> construct n (VClosure (FRejectExecutor (arg 0 args))) s
           | FResolveExecutor v \<Rightarrow> call n (arg 0 args) [v] s
           | FRejectExecutor r \<Rightarrow> call n (arg 1 args) [r] s)
      | VObj ob \<Rightarrow>
          (case body (objs s ob) of
             None \<Rightarrow> typeError s
           | Some code \<Rightarrow> run n code args (s\<lparr>trace := trace s @ [EvInvoke ob args]\<rparr>))
      | _ \<Rightarrow> typeError s)"

| "resolver 0 p v s = None"
| "resolver (Suc n) p v s =
     (if v = VPromise p then
        Some (Ret VUndefined
          (reject p (VTypeError ''The promise and its value refer to the same object'') s))
      else if isPromise v then
        call n (thenOf v) [VClosure (FResolver p), VClosure (FReject p)] s
      else if (isObject s v \<or> isFunction s v) \<and> truthy v then handleThen n p v s
      else Some (Ret VUndefined (fulfill p v s)))"

| "handleThen 0 p v s = None"
| "handleThen (Suc n) p v s =
     (let l = nextl s;
          s0 = s\<lparr>wasCalled := (wasCalled s)(l := False), nextl := Suc l\<rparr>
      in case getThen n v s0 of
           None \<Rightarrow> None
         | Some (Thrown reason s1) \<Rightarrow>
             once l (\<lambda>s'. Some (Ret VUndefined (reject p reason s'))) s1
         | Some (Ret t s1) \<Rightarrow>
             if \<not> isFunction s1 t then
               once l (\<lambda>s'. Some (Ret VUndefined (fulfill p v s'))) s1
             else (case call n t [VClosure (FOnceResolver l p), VClosure (FOnceReject l p)] s1 of
                     None \<Rightarrow> None
                   | Some (Thrown reason s2) \<Rightarrow>
                       once l (\<lambda>s'. Some (Ret VUndefined (reject p reason s'))) s2
                   | Some (Ret r s2) \<Rightarrow> Some (Ret VUndefined s2)))"

| "getThen 0 v s = None"
| "getThen (Suc n) v s =
     (case v of
        VObj ob \<Rightarrow>
          (case then_prop (objs s ob) of
             Absent \<Rightarrow> Some (Ret VUndefined (s\<lparr>trace := trace s @ [EvGetThen v]\<rparr>))
           | Data t \<Rightarrow> Some (Ret t (s\<lparr>trace := trace s @ [EvGetThen v]\<rparr>))
           | Getter code \<Rightarrow> run n code [] (s\<lparr>trace := trace s @ [EvGetThen v]\<rparr>))
      | VUndefined \<Rightarrow>
          Some (Thrown (VTypeError ''cannot read properties of undefined'')
                  (s\<lparr>trace := trace s @ [EvGetThen v]\<rparr>))
      | VNull \<Rightarrow>
          Some (Thrown (VTypeError ''cannot read properties of null'')
                  (s\<lparr>trace := trace s @ [EvGetThen v]\<rparr>))
      | _ \<Rightarrow> Some (Ret (thenOf v) (s\<lparr>trace := trace s @ [EvGetThen v]\<rparr>)))"

| "construct 0 executor s = None"
| "construct (Suc n) executor s =
     (let p = nextp s;
          s0 = s\<lparr>promises := (promises s)(p := \<lparr>value_p = VNull, state = Pending, callbacks = []\<rparr>),
                 nextp := Suc p\<rparr>
      in case call n executor [VClosure (FResolver p), VClosure (FReject p)] s0 of
           None \<Rightarrow> None
         | Some (Thrown reason s1) \<Rightarrow> Some (Ret (VPromise p) (reject p reason s1))
         | Some (Ret r s1) \<Rightarrow> Some (Ret (VPromise p) s1))"

| "run 0 code args s = None"
| "run (Suc n) code args s =
     (case code of
        [] \<Rightarrow> Some (Ret VUndefined s)
      | st # rest \<Rightarrow>
          (case st of
             Return e \<Rightarrow> Some (Ret (evalE args s e) s)
           | Throw e \<Rightarrow> Some (Thrown (evalE args s e) s)
           | Assign x e \<Rightarrow> run n rest args (s\<lparr>vars := (vars s)(x := evalE args s e)\<rparr>)
           | Defer f es \<Rightarrow>
               run n rest args (runAsync (TCall (evalE args s f) (map (evalE args s) es)) s)
           | Call x f es \<Rightarrow>
               (case call n (evalE args s f) (map (evalE args s) es) s of
                  None \<Rightarrow> None
                | Some (Thrown e1 s1) \<Rightarrow> Some (Thrown e1 s1)
                | Some (Ret r s1) \<Rightarrow> run n rest args (s1\<lparr>vars := (vars s1)(x := r)\<rparr>))
           | New x e \<Rightarrow>
               (case construct n (evalE args s e) s of
                  None \<Rightarrow> None
                | Some (Thrown e1 s1) \<Rightarrow> Some (Thrown e1 s1)
                | Some (Ret r s1) \<Rightarrow> run n rest args (s1\<lparr>vars := (vars s1)(x := r)\<rparr>))))"
  by pat_completeness auto

text \<open>
  Every call in a right-hand side is made with the fuel that is left.\<close>

termination
  by (relation "measure (case_sum (case_sum fst (case_sum fst fst)) (case_sum fst (case_sum fst fst)))")
     simp_all

section \<open>The scheduler\<close>

text \<open>
  \<open>fire\<close> of \<open>_executeCallbacks\<close>: while the queue is not empty, shift its first callback
  and call the member \<open>fire\<close> captured with \<open>this.value\<close>. A callback that throws ends
  the loop and leaves the rest of the queue.
\<close>

fun select :: "member \<Rightarrow> callback \<Rightarrow> val" where
  "select OnFulfilled cb = onFulfilled cb"
| "select OnRejected cb = onRejected cb"

fun fire :: "nat \<Rightarrow> pid \<Rightarrow> member \<Rightarrow> world \<Rightarrow> result" where
  "fire 0 p m s = None"
| "fire (Suc n) p m s =
     (case callbacks (promises s p) of
        [] \<Rightarrow> Some (Ret VUndefined s)
      | cb # rest \<Rightarrow>
          (case call n (select m cb) [value_p (promises s p)]
                  (s\<lparr>promises := (promises s)(p := (promises s p)\<lparr>callbacks := rest\<rparr>),
                     trace := trace s @ [EvFire p cb]\<rparr>) of
             None \<Rightarrow> None
           | Some (Thrown e s1) \<Rightarrow> Some (Thrown e s1)
           | Some (Ret r s1) \<Rightarrow> fire n p m s1))"

text \<open>
  One turn of the host's timer queue: the oldest unit of work runs to completion (an
  exception it throws is reported by the host and lost). \<open>runTasks n k\<close> is \<open>k\<close> turns.
\<close>

fun runTask :: "nat \<Rightarrow> world \<Rightarrow> world option" where
  "runTask n s =
     (case tasks s of
        [] \<Rightarrow> Some s
      | TFire p m # ts \<Rightarrow> map_option world_of (fire n p m (s\<lparr>tasks := ts\<rparr>))
      | TCall f args # ts \<Rightarrow> map_option world_of (call n f args (s\<lparr>tasks := ts\<rparr>)))"

fun runTasks :: "nat \<Rightarrow> nat \<Rightarrow> world \<Rightarrow> world option" where
  "runTasks n 0 s = Some s"
| "runTasks n (Suc k) s = (case runTask n s of None \<Rightarrow> None | Some s1 \<Rightarrow> runTasks n k s1)"

text \<open>
  The program before anything ran, over a table of foreign objects.\<close>

definition init :: "(oid \<Rightarrow> obj) \<Rightarrow> world" where
  "init os =
     \<lparr>promises = (\<lambda>p. \<lparr>value_p = VNull, state = Pending, callbacks = []\<rparr>), nextp = 0,
      wasCalled = (\<lambda>l. False), nextl = 0, objs = os, vars = (\<lambda>x. VUndefined),
      tasks = [], trace = []\<rparr>"

section \<open>Vocabulary of the properties\<close>

text \<open>
  A settlement attempt is a call of \<open>_fulfill\<close> or of \<open>_reject\<close> on one instance;
  \<open>settleAll\<close> makes a sequence of them, in order.
\<close>

datatype attempt = AFulfill val | AReject val

fun attemptSettle :: "pid \<Rightarrow> attempt \<Rightarrow> world \<Rightarrow> world" where
  "attemptSettle p (AFulfill v) s = fulfill p v s"
| "attemptSettle p (AReject r) s = reject p r s"

fun settleAll :: "pid \<Rightarrow> attempt list \<Rightarrow> world \<Rightarrow> world" where
  "settleAll p [] s = s"
| "settleAll p (a # rest) s = settleAll p rest (attemptSettle p a s)"

fun terminal :: "attempt \<Rightarrow> pstate" where
  "terminal (AFulfill v) = Resolved"
| "terminal (AReject r) = Rejected"

fun payload :: "attempt \<Rightarrow> val" where
  "payload (AFulfill v) = v"
| "payload (AReject r) = r"

text \<open>
  The reason \<open>_resolver\<close> rejects with when a promise is resolved with itself.\<close>

definition selfError :: val where
  "selfError = VTypeError ''The promise and its value refer to the same object''"

text \<open>
  The world after the three assignments of the constructor, and after \<open>_handleThen\<close>
  has made its \<open>wasCalled\<close> variable.
\<close>

definition newPromise :: "world \<Rightarrow> world" where
  "newPromise s =
     s\<lparr>promises := (promises s)(nextp s := \<lparr>value_p = VNull, state = Pending, callbacks = []\<rparr>),
       nextp := Suc (nextp s)\<rparr>"

definition newLatch :: "world \<Rightarrow> world" where
  "newLatch s = s\<lparr>wasCalled := (wasCalled s)(nextl s := False), nextl := Suc (nextl s)\<rparr>"

text \<open>
  The callback \<open>then(onFulfilled, onRejected)\<close> registers for the new instance \<open>q\<close>: the
  two functions \<open>member\<close> returns, over \<open>_resolver\<close> and \<open>_reject\<close> of \<open>q\<close>.
\<close>

definition reaction :: "val \<Rightarrow> val \<Rightarrow> pid \<Rightarrow> callback" where
  "reaction onF onR q =
     \<lparr>onFulfilled =
        VClosure (FMember onF (VClosure (FResolver q)) (VClosure (FResolver q)) (VClosure (FReject q))),
      onRejected =
        VClosure (FMember onR (VClosure (FReject q)) (VClosure (FResolver q)) (VClosure (FReject q)))\<rparr>"

text \<open>
  The drain \<open>_executeCallbacks\<close> hands to the scheduler for an instance in state \<open>st\<close>.\<close>

definition drainOf :: "pstate \<Rightarrow> pid \<Rightarrow> task list" where
  "drainOf st p =
     (if st = Pending then [] else [TFire p (if st = Resolved then OnFulfilled else OnRejected)])"

text \<open>
  What \<open>_handleThen\<close> does once \<open>value.then\<close> has been read, as a function of how the
  read ended: the rest of its \<open>try\<close> block and its \<open>catch\<close>. It does not read the
  property again.
\<close>

definition afterRead :: "nat \<Rightarrow> pid \<Rightarrow> val \<Rightarrow> lid \<Rightarrow> result \<Rightarrow> result" where
  "afterRead n p v l r =
     (case r of
        None \<Rightarrow> None
      | Some (Thrown reason s1) \<Rightarrow> once l (\<lambda>s'. Some (Ret VUndefined (reject p reason s'))) s1
      | Some (Ret t s1) \<Rightarrow>
          if \<not> isFunction s1 t then once l (\<lambda>s'. Some (Ret VUndefined (fulfill p v s'))) s1
          else (case call n t [VClosure (FOnceResolver l p), VClosure (FOnceReject l p)] s1 of
                  None \<Rightarrow> None
                | Some (Thrown reason s2) \<Rightarrow>
                    once l (\<lambda>s'. Some (Ret VUndefined (reject p reason s'))) s2
                | Some (Ret r2 s2) \<Rightarrow> Some (Ret VUndefined s2)))"

text \<open>
  A value the resolution of \<open>p\<close> treats as ordinary in \<open>s\<close>: not an instance, and when it
  is a non-null object or a function, the one read of its \<open>then\<close> returns a value that is
  not a function, and leaves \<open>p\<close> pending and the new \<open>wasCalled\<close> variable unset.
\<close>

definition ordinary :: "nat \<Rightarrow> pid \<Rightarrow> val \<Rightarrow> world \<Rightarrow> bool" where
  "ordinary n p v s =
     (\<not> isPromise v \<and>
      ((isObject s v \<or> isFunction s v) \<and> truthy v \<longrightarrow>
         (case getThen n v (newLatch s) of
            Some (Ret t s1) \<Rightarrow>
              \<not> isFunction s1 t \<and> state (promises s1 p) = Pending \<and> \<not> wasCalled s1 (nextl s)
          | _ \<Rightarrow> False)))"

text \<open>
  The handler of \<open>then(onFulfilled, onRejected)\<close> that the member \<open>m\<close> of its callback
  guards.\<close>

fun handlerOf :: "member \<Rightarrow> val \<Rightarrow> val \<Rightarrow> val" where
  "handlerOf OnFulfilled onF onR = onF"
| "handlerOf OnRejected onF onR = onR"

text \<open>
  The world in which \<open>fire\<close> calls the callback \<open>cb\<close> it has shifted from the queue of
  \<open>p\<close>, \<open>rest\<close> being what the shift left there.
\<close>

definition shifted :: "pid \<Rightarrow> callback \<Rightarrow> callback list \<Rightarrow> world \<Rightarrow> world" where
  "shifted p cb rest s =
     s\<lparr>promises := (promises s)(p := (promises s p)\<lparr>callbacks := rest\<rparr>),
       trace := trace s @ [EvFire p cb]\<rparr>"

subsection \<open>Observing a run\<close>

text \<open>
  What a finished call left in an instance (its state and its value), the trace and the
  scheduler's queue it left, and the world it left (the world it started in when it did
  not finish).
\<close>

fun settled :: "result \<Rightarrow> pid \<Rightarrow> (pstate \<times> val) option" where
  "settled None p = None"
| "settled (Some c) p = Some (state (promises (world_of c) p), value_p (promises (world_of c) p))"

fun traceOf :: "result \<Rightarrow> event list option" where
  "traceOf None = None"
| "traceOf (Some c) = Some (trace (world_of c))"

fun tasksOf :: "result \<Rightarrow> task list option" where
  "tasksOf None = None"
| "tasksOf (Some c) = Some (tasks (world_of c))"

definition doing :: "(world \<Rightarrow> result) \<Rightarrow> world \<Rightarrow> world" where
  "doing f s = (case f s of None \<Rightarrow> s | Some c \<Rightarrow> world_of c)"

text \<open>
  The callbacks registered on \<open>p\<close> and the callbacks fired on \<open>p\<close> in a stretch of the
  trace, in order; the events a run from \<open>s\<close> to \<open>s'\<close> added.
\<close>

fun registered :: "pid \<Rightarrow> event list \<Rightarrow> callback list" where
  "registered p [] = []"
| "registered p (EvRegister q cb # es) = (if q = p then cb # registered p es else registered p es)"
| "registered p (e # es) = registered p es"

fun fired :: "pid \<Rightarrow> event list \<Rightarrow> callback list" where
  "fired p [] = []"
| "fired p (EvFire q cb # es) = (if q = p then cb # fired p es else fired p es)"
| "fired p (e # es) = fired p es"

definition newEvents :: "world \<Rightarrow> world \<Rightarrow> event list" where
  "newEvents s s' = drop (length (trace s)) (trace s')"

subsection \<open>Relations between the world before and the world after\<close>

text \<open>
  A relation is stable when it is reflexive and transitive and holds across every
  assignment the library and the statements of foreign code make. \<open>keeps R f\<close> says that
  every finished run of \<open>f\<close> relates its start to its end, \<open>keepsAll R n\<close> that every
  method does with fuel \<open>n\<close>.
\<close>

definition stable :: "(world \<Rightarrow> world \<Rightarrow> bool) \<Rightarrow> bool" where
  "stable R =
    ((\<forall>s. R s s) \<and>
     (\<forall>a b c. R a b \<longrightarrow> R b c \<longrightarrow> R a c) \<and>
     (\<forall>s p st v. R s (transition p st v s)) \<and>
     (\<forall>s p cb. R s (addCallback p cb s)) \<and>
     (\<forall>s l. R s (s\<lparr>wasCalled := (wasCalled s)(l := True)\<rparr>)) \<and>
     (\<forall>s. R s (s\<lparr>wasCalled := (wasCalled s)(nextl s := False), nextl := Suc (nextl s)\<rparr>)) \<and>
     (\<forall>s ob args. R s (s\<lparr>trace := trace s @ [EvInvoke ob args]\<rparr>)) \<and>
     (\<forall>s v. R s (s\<lparr>trace := trace s @ [EvGetThen v]\<rparr>)) \<and>
     (\<forall>s. R s (s\<lparr>promises := (promises s)(nextp s := \<lparr>value_p = VNull, state = Pending, callbacks = []\<rparr>),
                  nextp := Suc (nextp s)\<rparr>)) \<and>
     (\<forall>s x v. R s (s\<lparr>vars := (vars s)(x := v)\<rparr>)) \<and>
     (\<forall>s t. R s (runAsync t s)) \<and>
     (\<forall>s ts. R s (s\<lparr>tasks := ts\<rparr>)) \<and>
     (\<forall>s p cb rest. callbacks (promises s p) = cb # rest \<longrightarrow>
        R s (s\<lparr>promises := (promises s)(p := (promises s p)\<lparr>callbacks := rest\<rparr>),
              trace := trace s @ [EvFire p cb]\<rparr>)))"

definition keeps :: "(world \<Rightarrow> world \<Rightarrow> bool) \<Rightarrow> (world \<Rightarrow> result) \<Rightarrow> bool" where
  "keeps R f = (\<forall>s c. f s = Some c \<longrightarrow> R s (world_of c))"

definition keepsAll :: "(world \<Rightarrow> world \<Rightarrow> bool) \<Rightarrow> nat \<Rightarrow> bool" where
  "keepsAll R n =
     ((\<forall>f args. keeps R (call n f args)) \<and>
      (\<forall>p v. keeps R (resolver n p v)) \<and>
      (\<forall>p v. keeps R (handleThen n p v)) \<and>
      (\<forall>v. keeps R (getThen n v)) \<and>
      (\<forall>e. keeps R (construct n e)) \<and>
      (\<forall>code args. keeps R (run n code args)))"

text \<open>
  For an instance that exists in \<open>s\<close>: once it is settled, its state and its value are
  the same in \<open>s'\<close>.
\<close>

definition settledKept :: "pid \<Rightarrow> world \<Rightarrow> world \<Rightarrow> bool" where
  "settledKept p s s' =
     (p < nextp s \<longrightarrow>
        p < nextp s' \<and>
        (state (promises s p) \<noteq> Pending \<longrightarrow>
           state (promises s' p) = state (promises s p) \<and>
           value_p (promises s' p) = value_p (promises s p)))"

text \<open>
  For an instance that exists in \<open>s\<close>: the trace only grew, and what was queued in \<open>s\<close>
  followed by what was registered since is what was fired since followed by what is
  queued in \<open>s'\<close>.
\<close>

definition conserves :: "pid \<Rightarrow> world \<Rightarrow> world \<Rightarrow> bool" where
  "conserves p s s' =
     (p < nextp s \<longrightarrow>
        p < nextp s' \<and>
        take (length (trace s)) (trace s') = trace s \<and>
        callbacks (promises s p) @ registered p (newEvents s s') =
          fired p (newEvents s s') @ callbacks (promises s' p))"

text \<open>
  For a \<open>wasCalled\<close> variable that exists in \<open>s\<close>: once set, it is set in \<open>s'\<close>.\<close>

definition latchKept :: "lid \<Rightarrow> world \<Rightarrow> world \<Rightarrow> bool" where
  "latchKept l s s' = (l < nextl s \<longrightarrow> l < nextl s' \<and> (wasCalled s l \<longrightarrow> wasCalled s' l))"

subsection \<open>Foreign code used below\<close>

text \<open>
  An object with no \<open>then\<close> that is not callable, and a table of such objects.\<close>

definition plain :: obj where
  "plain = \<lparr>then_prop = Absent, body = None\<rparr>"

definition noObjs :: "oid \<Rightarrow> obj" where
  "noObjs = (\<lambda>ob. plain)"

text \<open>
  Two pending instances, 0 and 1, and nothing else.\<close>

definition twoPending :: world where
  "twoPending = newPromise (newPromise (init noObjs))"

text \<open>
  Two thenables sharing a variable:
  \<^verbatim>\<open>T1 = { then(res, rej) { saved = res; res(T2) } }\<close> (object 1, its \<open>then\<close> is function 3)
  and \<^verbatim>\<open>T2 = { then(res, rej) { saved(42) } }\<close> (object 2, its \<open>then\<close> is function 4).
\<close>

definition reentrant :: "oid \<Rightarrow> obj" where
  "reentrant = noObjs
     (1 := \<lparr>then_prop = Data (VObj 3), body = None\<rparr>,
      2 := \<lparr>then_prop = Data (VObj 4), body = None\<rparr>,
      3 := \<lparr>then_prop = Absent, body = Some [Assign 0 (Arg 0), Call 1 (Arg 0) [Lit (VObj 2)]]\<rparr>,
      4 := \<lparr>then_prop = Absent, body = Some [Call 1 (Var 0) [Lit (VNum 42)]]\<rparr>)"

text \<open>
  A thenable that calls its first callback twice, one call after the other:
  \<^verbatim>\<open>T = { then(res, rej) { res(1); res(2) } }\<close> (object 1, its \<open>then\<close> is function 2).
\<close>

definition twice :: "oid \<Rightarrow> obj" where
  "twice = noObjs
     (1 := \<lparr>then_prop = Data (VObj 2), body = None\<rparr>,
      2 := \<lparr>then_prop = Absent,
            body = Some [Call 0 (Arg 0) [Lit (VNum 1)], Call 0 (Arg 0) [Lit (VNum 2)]]\<rparr>)"

text \<open>
  Two handlers: \<^verbatim>\<open>h1 = v => { p.then(h2) }\<close> (function 1, \<open>p\<close> the instance 0) and
  \<^verbatim>\<open>h2 = v => {}\<close> (function 2); and the world after
  \<^verbatim>\<open>p = HelloPromise.resolve(7); p.then(h1)\<close>, before the scheduler ran anything.
\<close>

definition handlers :: "oid \<Rightarrow> obj" where
  "handlers = noObjs
     (1 := \<lparr>then_prop = Absent, body = Some [Call 0 (Lit (VClosure (FThen 0))) [Lit (VObj 2)]]\<rparr>,
      2 := \<lparr>then_prop = Absent, body = Some []\<rparr>)"

definition registeredOne :: world where
  "registeredOne =
     doing (call 4 (VClosure (FThen 0)) [VObj 1])
       (doing (call 5 (VClosure FStaticResolve) [VNum 7]) (init handlers))"

text \<open>
  An object whose \<open>then\<close> is an accessor that throws,
  \<^verbatim>\<open>{ get then() { throw 'boom' } }\<close> (object 1), and an object whose \<open>then\<close> is a
  number, \<^verbatim>\<open>{ then: 5 }\<close> (object 2).
\<close>

definition throwing :: "oid \<Rightarrow> obj" where
  "throwing = noObjs
     (1 := \<lparr>then_prop = Getter [Throw (Lit (VStr ''boom''))], body = None\<rparr>,
      2 := \<lparr>then_prop = Data (VNum 5), body = None\<rparr>)"

text \<open>
  Three thenables, each calling back at once: \<^verbatim>\<open>T1 = { then(res) { res(T2) } }\<close>,
  \<^verbatim>\<open>T2 = { then(res) { res(T3) } }\<close>, \<^verbatim>\<open>T3 = { then(res) { res(42) } }\<close> (objects 1, 2, 3
  with the functions 4, 5, 6).
\<close>

definition chain :: "oid \<Rightarrow> obj" where
  "chain = noObjs
     (1 := \<lparr>then_prop = Data (VObj 4), body = None\<rparr>,
      2 := \<lparr>then_prop = Data (VObj 5), body = None\<rparr>,
      3 := \<lparr>then_prop = Data (VObj 6), body = None\<rparr>,
      4 := \<lparr>then_prop = Absent, body = Some [Call 0 (Arg 0) [Lit (VObj 2)]]\<rparr>,
      5 := \<lparr>then_prop = Absent, body = Some [Call 0 (Arg 0) [Lit (VObj 3)]]\<rparr>,
      6 := \<lparr>then_prop = Absent, body = Some [Call 0 (Arg 0) [Lit (VNum 42)]]\<rparr>)"

text \<open>
  An object whose \<open>then\<close> is an accessor that returns a different value on every read:
  \<^verbatim>\<open>{ get then() { const t = next; next = undefined; return t } }\<close> (object 1), in a
  world with one pending instance where \<open>next\<close> (variable 0) holds
  \<^verbatim>\<open>(res, rej) => { res(1) }\<close> (function 2).
\<close>

definition flipflop :: "oid \<Rightarrow> obj" where
  "flipflop = noObjs
     (1 := \<lparr>then_prop = Getter [Assign 1 (Var 0), Assign 0 (Lit VUndefined), Return (Var 1)],
            body = None\<rparr>,
      2 := \<lparr>then_prop = Absent, body = Some [Call 2 (Arg 0) [Lit (VNum 1)]]\<rparr>)"

definition flipflopStart :: world where
  "flipflopStart = newPromise ((init flipflop)\<lparr>vars := (vars (init flipflop))(0 := VObj 2)\<rparr>)"

text \<open>
  Two handlers, \<^verbatim>\<open>v => 2\<close> (function 1) and \<^verbatim>\<open>v => { throw 'err' }\<close> (function 2), and a
  world with two pending instances over them.
\<close>

definition returning :: "oid \<Rightarrow> obj" where
  "returning = noObjs
     (1 := \<lparr>then_prop = Absent, body = Some [Return (Lit (VNum 2))]\<rparr>,
      2 := \<lparr>then_prop = Absent, body = Some [Throw (Lit (VStr ''err''))]\<rparr>)"

definition twoPendingH :: world where
  "twoPendingH = newPromise (newPromise (init returning))"

text \<open>
  Over the same two handlers: the world after \<^verbatim>\<open>p = HelloPromise.resolve(7)\<close>, the world
  after \<^verbatim>\<open>p = HelloPromise.reject('no')\<close> (\<open>p\<close> is the instance 0 in both), and the world
  after \<^verbatim>\<open>p.then(onFulfilled, onRejected)\<close> in a world \<open>s\<close>.
\<close>

definition settledSeven :: world where
  "settledSeven = doing (call 5 (VClosure FStaticResolve) [VNum 7]) (init returning)"

definition failedNo :: world where
  "failedNo = doing (call 5 (VClosure FStaticReject) [VStr ''no'']) (init returning)"

definition thenOn :: "val \<Rightarrow> val \<Rightarrow> world \<Rightarrow> world" where
  "thenOn onF onR s = doing (call 4 (VClosure (FThen 0)) [onF, onR]) s"

text \<open>
  The world after the instance 1 of \<open>twoPending\<close> was resolved with the instance 0, which
  is pending.\<close>

definition linked :: world where
  "linked = doing (resolver 4 1 (VPromise 0)) twoPending"

text \<open>
  A handler that resolves a new instance with the instance whose drain calls it:
  \<^verbatim>\<open>h = v => { p = HelloPromise.resolve(q) }\<close> (function 1, \<open>q\<close> the instance 0, \<open>p\<close> the
  variable 0); and the world after \<^verbatim>\<open>q = HelloPromise.resolve(7); q.then(h)\<close>, before
  the scheduler ran anything.
\<close>

definition relinking :: "oid \<Rightarrow> obj" where
  "relinking = noObjs
     (1 := \<lparr>then_prop = Absent,
            body = Some [Call 0 (Lit (VClosure FStaticResolve)) [Lit (VPromise 0)]]\<rparr>)"

definition relinkStart :: world where
  "relinkStart =
     doing (call 4 (VClosure (FThen 0)) [VObj 1])
       (doing (call 5 (VClosure FStaticResolve) [VNum 7]) (init relinking))"

section \<open>Basic facts about the methods\<close>

lemma transition_settled: "state (promises s p) \<noteq> Pending \<Longrightarrow> transition p st v s = s"
  by (simp add: transition_def)

lemma transition_pending:
  "state (promises s p) = Pending \<Longrightarrow> st \<noteq> Pending \<Longrightarrow>
   transition p st v s =
     s\<lparr>promises := (promises s)(p := (promises s p)\<lparr>value_p := v, state := st\<rparr>),
       tasks := tasks s @ [TFire p (if st = Resolved then OnFulfilled else OnRejected)]\<rparr>"
  by (simp add: transition_def executeCallbacks_def runAsync_def)

lemma settled_fulfill:
  "state (promises s p) = Pending \<Longrightarrow>
   state (promises (fulfill p v s) p) = Resolved \<and> value_p (promises (fulfill p v s) p) = v"
  by (simp add: fulfill_def transition_def executeCallbacks_def runAsync_def)

lemma settled_reject:
  "state (promises s p) = Pending \<Longrightarrow>
   state (promises (reject p v s) p) = Rejected \<and> value_p (promises (reject p v s) p) = v"
  by (simp add: reject_def transition_def executeCallbacks_def runAsync_def)

lemma newPromise_pending: "state (promises (newPromise s) (nextp s)) = Pending"
  by (simp add: newPromise_def)

lemma then_call:
  "call (Suc (Suc (Suc n))) (VClosure (FThen p)) [onF, onR] s =
     Some (Ret (VPromise (nextp s)) (addCallback p (reaction onF onR (nextp s)) (newPromise s)))"
  by (simp add: Let_def arg_def reaction_def newPromise_def)


lemma transition_effect:
  "trace (transition p st v s) = trace s \<and>
   callbacks (promises (transition p st v s) q) = callbacks (promises s q) \<and>
   tasks (transition p st v s) =
     tasks s @ (if state (promises s p) = Pending then drainOf st p else [])"
  by (simp add: transition_def executeCallbacks_def runAsync_def drainOf_def)

lemma resolver_never_throws: "resolver n p v s \<noteq> Some (Thrown e s')"
proof (cases n)
  case 0
  then show ?thesis by simp
next
  case (Suc m)
  show ?thesis
  proof (cases m)
    case 0
    with Suc show ?thesis by (simp add: reject_def fulfill_def)
  next
    case (Suc k)
    have h: "handleThen m p v s \<noteq> Some (Thrown e s')"
      using Suc
      by (auto simp: Let_def once_def split: option.splits completion.splits if_splits)
    have c: "\<And>q. call m (VClosure (FThen q)) [VClosure (FResolver p), VClosure (FReject p)] s
               \<noteq> Some (Thrown e s')"
      using Suc by (cases k) (auto simp: Let_def split: option.splits completion.splits)
    from h c \<open>n = Suc m\<close> show ?thesis
      by (cases v) auto
  qed
qed

lemma handleThen_unfold:
  "handleThen (Suc n) p v s =
     (case getThen n v (newLatch s) of
        None \<Rightarrow> None
      | Some (Thrown reason s1) \<Rightarrow>
          once (nextl s) (\<lambda>s'. Some (Ret VUndefined (reject p reason s'))) s1
      | Some (Ret t s1) \<Rightarrow>
          if \<not> isFunction s1 t then
            once (nextl s) (\<lambda>s'. Some (Ret VUndefined (fulfill p v s'))) s1
          else (case call n t [VClosure (FOnceResolver (nextl s) p), VClosure (FOnceReject (nextl s) p)] s1 of
                  None \<Rightarrow> None
                | Some (Thrown reason s2) \<Rightarrow>
                    once (nextl s) (\<lambda>s'. Some (Ret VUndefined (reject p reason s'))) s2
                | Some (Ret r s2) \<Rightarrow> Some (Ret VUndefined s2)))"
  by (simp add: Let_def newLatch_def)

lemma handleThen_afterRead:
  "handleThen (Suc n) p v s = afterRead n p v (nextl s) (getThen n v (newLatch s))"
  by (simp add: Let_def newLatch_def afterRead_def split: option.splits completion.splits)

lemma getThen_data:
  "then_prop (objs s ob) = Data t \<Longrightarrow>
   getThen (Suc n) (VObj ob) s = Some (Ret t (s\<lparr>trace := trace s @ [EvGetThen (VObj ob)]\<rparr>))"
  by simp

lemma isFunction_objs: "objs s' = objs s \<Longrightarrow> isFunction s' t = isFunction s t"
  by (cases t) simp_all

lemma handleThen_data_trace:
  assumes "then_prop (objs s ob) = Data t" and "\<not> isFunction s t"
  shows "traceOf (handleThen (Suc (Suc n)) p (VObj ob) s) = Some (trace s @ [EvGetThen (VObj ob)])"
proof -
  let ?s1 = "(newLatch s)\<lparr>trace := trace (newLatch s) @ [EvGetThen (VObj ob)]\<rparr>"
  from assms(1) have g: "getThen (Suc n) (VObj ob) (newLatch s) = Some (Ret t ?s1)"
    by (simp add: newLatch_def)
  have nf: "\<not> isFunction ?s1 t"
    using assms(2) isFunction_objs[of ?s1 s t] by (simp add: newLatch_def)
  have l: "\<not> wasCalled ?s1 (nextl s)" by (simp add: newLatch_def)
  have "handleThen (Suc (Suc n)) p (VObj ob) s =
      once (nextl s) (\<lambda>s'. Some (Ret VUndefined (fulfill p (VObj ob) s'))) ?s1"
    using g nf by (simp add: handleThen_afterRead afterRead_def del: handleThen.simps getThen.simps)
  with l show ?thesis
    by (simp add: once_def fulfill_def transition_effect newLatch_def del: handleThen.simps)
qed

lemma static_resolve_call:
  "call (Suc (Suc (Suc (Suc n)))) (VClosure FStaticResolve) [v] s =
     map_option (\<lambda>c. Ret (VPromise (nextp s)) (world_of c)) (resolver n (nextp s) v (newPromise s))"
  using resolver_never_throws[of n "nextp s" v "newPromise s"]
  by (auto simp: Let_def arg_def newPromise_def simp del: resolver.simps
        split: option.splits completion.splits)

section \<open>Relations that every run keeps\<close>

lemma stable_refl: "stable R \<Longrightarrow> R s s"
  by (simp add: stable_def)

lemma stable_trans: "stable R \<Longrightarrow> R a b \<Longrightarrow> R b c \<Longrightarrow> R a c"
proof -
  assume "stable R" and ab: "R a b" and bc: "R b c"
  then have "\<forall>a b c. R a b \<longrightarrow> R b c \<longrightarrow> R a c" by (simp add: stable_def)
  with ab bc show ?thesis by blast
qed

lemma stable_transition:
  assumes "stable R" and "R a s"
  shows "R a (transition p st v s)"
  by (rule stable_trans [OF assms(1) assms(2)]) (use assms(1) in \<open>simp add: stable_def\<close>)

lemma stable_addCallback:
  assumes "stable R" and "R a s"
  shows "R a (addCallback p cb s)"
  by (rule stable_trans [OF assms(1) assms(2)]) (use assms(1) in \<open>simp add: stable_def\<close>)

lemma stable_latch:
  assumes "stable R" and "R a s"
  shows "R a (s\<lparr>wasCalled := (wasCalled s)(l := True)\<rparr>)"
  by (rule stable_trans [OF assms(1) assms(2)]) (use assms(1) in \<open>simp add: stable_def\<close>)

lemma stable_vars:
  assumes "stable R" and "R a s"
  shows "R a (s\<lparr>vars := (vars s)(x := v)\<rparr>)"
  by (rule stable_trans [OF assms(1) assms(2)]) (use assms(1) in \<open>simp add: stable_def\<close>)

lemma stable_newLatch:
  assumes "stable R" and "R (s\<lparr>wasCalled := (wasCalled s)(nextl s := False), nextl := Suc (nextl s)\<rparr>) b"
  shows "R s b"
  by (rule stable_trans [OF assms(1) _ assms(2)]) (use assms(1) in \<open>simp add: stable_def\<close>)

lemma stable_invoke:
  assumes "stable R" and "R (s\<lparr>trace := trace s @ [EvInvoke ob args]\<rparr>) b"
  shows "R s b"
  by (rule stable_trans [OF assms(1) _ assms(2)]) (use assms(1) in \<open>simp add: stable_def\<close>)

lemma stable_getThen:
  assumes "stable R" and "R (s\<lparr>trace := trace s @ [EvGetThen v]\<rparr>) b"
  shows "R s b"
  by (rule stable_trans [OF assms(1) _ assms(2)]) (use assms(1) in \<open>simp add: stable_def\<close>)

lemma stable_alloc:
  assumes "stable R" and "R (s\<lparr>promises := (promises s)(nextp s := \<lparr>value_p = VNull, state = Pending, callbacks = []\<rparr>), nextp := Suc (nextp s)\<rparr>) b"
  shows "R s b"
  by (rule stable_trans [OF assms(1) _ assms(2)]) (use assms(1) in \<open>simp add: stable_def\<close>)

lemma stable_vars_pre:
  assumes "stable R" and "R (s\<lparr>vars := (vars s)(x := v)\<rparr>) b"
  shows "R s b"
  by (rule stable_trans [OF assms(1) _ assms(2)]) (use assms(1) in \<open>simp add: stable_def\<close>)

lemma stable_runAsync:
  assumes "stable R" and "R (runAsync t s) b"
  shows "R s b"
  by (rule stable_trans [OF assms(1) _ assms(2)]) (use assms(1) in \<open>simp add: stable_def\<close>)

lemma stable_tasks:
  assumes "stable R" and "R (s\<lparr>tasks := ts\<rparr>) b"
  shows "R s b"
  by (rule stable_trans [OF assms(1) _ assms(2)]) (use assms(1) in \<open>simp add: stable_def\<close>)

lemma stable_shift:
  assumes "stable R" and "R (s\<lparr>promises := (promises s)(p := (promises s p)\<lparr>callbacks := rest\<rparr>), trace := trace s @ [EvFire p cb]\<rparr>) b" and "callbacks (promises s p) = cb # rest"
  shows "R s b"
  by (rule stable_trans [OF assms(1) _ assms(2)]) (use assms(1,3) in \<open>simp add: stable_def\<close>)

lemma stable_getThen_post: "stable R \<Longrightarrow> R s (s\<lparr>trace := trace s @ [EvGetThen v]\<rparr>)"
  by (simp add: stable_def)

lemma keepsD: "keeps R f \<Longrightarrow> f s = Some c \<Longrightarrow> R s (world_of c)"
  by (simp add: keeps_def)

lemma keeps_once:
  assumes st: "stable R" and fn: "keeps R fn"
  shows "keeps R (once l fn)"
  unfolding keeps_def
proof (intro allI impI)
  fix s c assume run: "once l fn s = Some c"
  show "R s (world_of c)"
  proof (cases "wasCalled s l")
    case True
    with run show ?thesis by (auto simp: once_def stable_refl[OF st])
  next
    case False
    with run obtain c1 where c1: "fn s = Some c1"
      by (auto simp: once_def split: option.splits)
    from keepsD[OF fn c1] have r1: "R s (world_of c1)" .
    show ?thesis
    proof (cases c1)
      case (Thrown e s1)
      with False run c1 r1 show ?thesis by (simp add: once_def)
    next
      case (Ret r s1)
      with False run c1 have "c = Ret VUndefined (s1\<lparr>wasCalled := (wasCalled s1)(l := True)\<rparr>)"
        by (simp add: once_def)
      with r1 Ret show ?thesis by (simp add: stable_latch[OF st])
    qed
  qed
qed

lemma keeps_settle:
  "stable R \<Longrightarrow> keeps R (\<lambda>s. Some (Ret v (transition p st r s)))"
  by (simp add: keeps_def stable_transition stable_refl)

lemma keepsAll_0: "keepsAll R 0"
  by (simp add: keepsAll_def keeps_def)

lemma keeps_run_step:
  assumes st: "stable R" and ih: "keepsAll R n"
  shows "keeps R (run (Suc n) code args)"
  unfolding keeps_def
proof (intro allI impI)
  fix s c assume run: "run (Suc n) code args s = Some c"
  have kcall: "\<And>f as s c. call n f as s = Some c \<Longrightarrow> R s (world_of c)"
    and kcons: "\<And>e s c. construct n e s = Some c \<Longrightarrow> R s (world_of c)"
    and krun: "\<And>cd as s c. run n cd as s = Some c \<Longrightarrow> R s (world_of c)"
    using ih by (auto simp: keepsAll_def keeps_def)
  show "R s (world_of c)"
  proof (cases code)
    case Nil
    with run show ?thesis by (auto simp: stable_refl[OF st])
  next
    case (Cons stm rest)
    show ?thesis
    proof (cases stm)
      case (Call x f es)
      with Cons run show ?thesis
        by (auto split: option.splits completion.splits dest!: kcall krun
              intro: stable_trans[OF st] stable_vars_pre[OF st])
    next
      case (Assign x e)
      with Cons run show ?thesis
        by (auto dest!: krun intro: stable_vars_pre[OF st])
    next
      case (New x e)
      with Cons run show ?thesis
        by (auto split: option.splits completion.splits dest!: kcons krun
              intro: stable_trans[OF st] stable_vars_pre[OF st])
    next
      case (Defer f es)
      with Cons run show ?thesis
        by (auto dest!: krun intro: stable_runAsync[OF st])
    next
      case (Throw e)
      with Cons run show ?thesis by (auto simp: stable_refl[OF st])
    next
      case (Return e)
      with Cons run show ?thesis by (auto simp: stable_refl[OF st])
    qed
  qed
qed

lemma keeps_getThen_step:
  assumes st: "stable R" and ih: "keepsAll R n"
  shows "keeps R (getThen (Suc n) v)"
  unfolding keeps_def
proof (intro allI impI)
  fix s c assume run: "getThen (Suc n) v s = Some c"
  have krun: "\<And>cd as s c. run n cd as s = Some c \<Longrightarrow> R s (world_of c)"
    using ih by (auto simp: keepsAll_def keeps_def)
  from run show "R s (world_of c)"
    by (auto split: val.splits property.splits dest!: krun
          intro: stable_getThen[OF st] stable_getThen_post[OF st])
qed

lemma keeps_construct_step:
  assumes st: "stable R" and ih: "keepsAll R n"
  shows "keeps R (construct (Suc n) e)"
  unfolding keeps_def
proof (intro allI impI)
  fix s c assume run: "construct (Suc n) e s = Some c"
  have kcall: "\<And>f as s c. call n f as s = Some c \<Longrightarrow> R s (world_of c)"
    using ih by (auto simp: keepsAll_def keeps_def)
  let ?s0 = "s\<lparr>promises := (promises s)(nextp s := \<lparr>value_p = VNull, state = Pending, callbacks = []\<rparr>),
                nextp := Suc (nextp s)\<rparr>"
  have "R ?s0 (world_of c)"
    using run
    by (auto simp: Let_def reject_def stable_transition[OF st]
          split: option.splits completion.splits dest!: kcall)
  then show "R s (world_of c)" by (rule stable_alloc[OF st])
qed

lemma keeps_handleThen_step:
  assumes st: "stable R" and ih: "keepsAll R n"
  shows "keeps R (handleThen (Suc n) p v)"
  unfolding keeps_def
proof (intro allI impI)
  fix s c assume run: "handleThen (Suc n) p v s = Some c"
  have kcall: "\<And>f as s c. call n f as s = Some c \<Longrightarrow> R s (world_of c)"
    and kget: "\<And>v s c. getThen n v s = Some c \<Longrightarrow> R s (world_of c)"
    using ih by (auto simp: keepsAll_def keeps_def)
  have settle: "\<And>l st r s c. once l (\<lambda>s'. Some (Ret VUndefined (transition p st r s'))) s = Some c
      \<Longrightarrow> R s (world_of c)"
    using keeps_once[OF st keeps_settle[OF st]] by (auto simp: keeps_def)
  let ?s0 = "s\<lparr>wasCalled := (wasCalled s)(nextl s := False), nextl := Suc (nextl s)\<rparr>"
  have "R ?s0 (world_of c)"
    using run
    by (auto simp: Let_def reject_def fulfill_def split: option.splits completion.splits if_splits
          dest!: kcall kget settle)
       (blast intro: stable_trans[OF st])+
  then show "R s (world_of c)" by (rule stable_newLatch[OF st])
qed

lemma keeps_resolver_step:
  assumes st: "stable R" and ih: "keepsAll R n"
  shows "keeps R (resolver (Suc n) p v)"
  unfolding keeps_def
proof (intro allI impI)
  fix s c assume run: "resolver (Suc n) p v s = Some c"
  have kcall: "\<And>f as s c. call n f as s = Some c \<Longrightarrow> R s (world_of c)"
    and khandle: "\<And>p v s c. handleThen n p v s = Some c \<Longrightarrow> R s (world_of c)"
    using ih by (auto simp: keepsAll_def keeps_def)
  from run show "R s (world_of c)"
    by (auto simp: reject_def fulfill_def stable_transition[OF st stable_refl[OF st]]
          split: if_splits dest!: kcall khandle)
qed

lemma keeps_call_step:
  assumes st: "stable R" and ih: "keepsAll R n"
  shows "keeps R (call (Suc n) f args)"
  unfolding keeps_def
proof (intro allI impI)
  fix s c assume run: "call (Suc n) f args s = Some c"
  have kcall: "\<And>f as s c. call n f as s = Some c \<Longrightarrow> R s (world_of c)"
    and kres: "\<And>p v s c. resolver n p v s = Some c \<Longrightarrow> R s (world_of c)"
    and kcons: "\<And>e s c. construct n e s = Some c \<Longrightarrow> R s (world_of c)"
    and krun: "\<And>cd as s c. run n cd as s = Some c \<Longrightarrow> R s (world_of c)"
    using ih by (auto simp: keepsAll_def keeps_def)
  have settle: "\<And>l p st r s c. once l (\<lambda>s'. Some (Ret VUndefined (transition p st r s'))) s = Some c
      \<Longrightarrow> R s (world_of c)"
    using keeps_once[OF st keeps_settle[OF st]] by (auto simp: keeps_def)
  have "\<And>p v. keeps R (resolver n p v)"
    using ih by (simp add: keepsAll_def)
  then have konce: "\<And>l p v s c. once l (resolver n p v) s = Some c \<Longrightarrow> R s (world_of c)"
    by (rule keepsD[OF keeps_once[OF st]])
  have rf: "\<And>s. R s s" by (rule stable_refl[OF st])
  show "R s (world_of c)"
  proof (cases f)
    case (VObj ob)
    with run show ?thesis
      by (auto simp: typeError_def rf split: option.splits dest!: krun intro: stable_invoke[OF st])
  next
    case (VClosure cl)
    show ?thesis
    proof (cases cl)
      case (FMember fn fb rs rj)
      with VClosure run show ?thesis
        by (auto split: if_splits option.splits completion.splits dest!: kcall)
           (blast intro: stable_trans[OF st])+
    qed (use VClosure run in \<open>auto simp: reject_def rf stable_transition[OF st rf]
           stable_addCallback[OF st rf] dest!: kcall kres kcons settle konce\<close>)
  qed (use run in \<open>auto simp: typeError_def rf\<close>)
qed

lemma keeps_everything: "stable R \<Longrightarrow> keepsAll R n"
proof (induction n)
  case 0
  show ?case by (rule keepsAll_0)
next
  case (Suc n)
  then have ih: "keepsAll R n" by simp
  show ?case
    unfolding keepsAll_def
    using keeps_call_step[OF Suc.prems ih] keeps_resolver_step[OF Suc.prems ih]
      keeps_handleThen_step[OF Suc.prems ih] keeps_getThen_step[OF Suc.prems ih]
      keeps_construct_step[OF Suc.prems ih] keeps_run_step[OF Suc.prems ih]
    by blast
qed

lemma keeps_call: "stable R \<Longrightarrow> call n f args s = Some c \<Longrightarrow> R s (world_of c)"
  using keeps_everything[of R n] by (simp add: keepsAll_def keeps_def)

lemma keeps_fire: "stable R \<Longrightarrow> fire n p m s = Some c \<Longrightarrow> R s (world_of c)"
proof (induction n arbitrary: s)
  case 0
  then show ?case by simp
next
  case (Suc n)
  note st = Suc.prems(1)
  show ?case
  proof (cases "callbacks (promises s p)")
    case Nil
    with Suc.prems(2) show ?thesis by (auto simp: stable_refl[OF st])
  next
    case (Cons cb rest)
    let ?s0 = "s\<lparr>promises := (promises s)(p := (promises s p)\<lparr>callbacks := rest\<rparr>),
                 trace := trace s @ [EvFire p cb]\<rparr>"
    from Suc.prems(2) Cons obtain c1
      where c1: "call n (select m cb) [value_p (promises s p)] ?s0 = Some c1"
      by (auto split: option.splits)
    have r1: "R ?s0 (world_of c1)" by (rule keeps_call[OF st c1])
    have "R ?s0 (world_of c)"
    proof (cases c1)
      case (Thrown e s1)
      with Suc.prems(2) Cons c1 r1 show ?thesis by auto
    next
      case (Ret r s1)
      with Suc.prems(2) Cons c1 have "fire n p m s1 = Some c" by simp
      from Suc.IH[OF st this] r1 Ret show ?thesis by (auto intro: stable_trans[OF st])
    qed
    then show ?thesis by (rule stable_shift[OF st _ Cons])
  qed
qed

lemma keeps_runTask: "stable R \<Longrightarrow> runTask n s = Some s' \<Longrightarrow> R s s'"
proof -
  assume st: "stable R" and run: "runTask n s = Some s'"
  show ?thesis
  proof (cases "tasks s")
    case Nil
    with run show ?thesis by (auto simp: stable_refl[OF st])
  next
    case (Cons t ts)
    show ?thesis
    proof (cases t)
      case (TFire p m)
      with run Cons show ?thesis
        by (auto dest!: keeps_fire[OF st] intro: stable_tasks[OF st])
    next
      case (TCall f args)
      with run Cons show ?thesis
        by (auto dest!: keeps_call[OF st] intro: stable_tasks[OF st])
    qed
  qed
qed

lemma keeps_runTasks: "stable R \<Longrightarrow> runTasks n k s = Some s' \<Longrightarrow> R s s'"
proof (induction k arbitrary: s)
  case 0
  then show ?case by (auto simp: stable_refl)
next
  case (Suc k)
  from Suc.prems(2) obtain s1
    where s1: "runTask n s = Some s1" and rest: "runTasks n k s1 = Some s'"
    by (auto split: option.splits)
  from keeps_runTask[OF Suc.prems(1) s1] Suc.IH[OF Suc.prems(1) rest] show ?case
    by (rule stable_trans[OF Suc.prems(1)])
qed

lemma stable_settledKept: "stable (settledKept p)"
  unfolding stable_def
  by (auto simp: settledKept_def transition_def addCallback_def executeCallbacks_def runAsync_def)

lemma stable_latchKept: "stable (latchKept l)"
  unfolding stable_def
  by (auto simp: latchKept_def transition_def addCallback_def executeCallbacks_def runAsync_def)

section \<open>Settlement happens at most once\<close>

lemma attemptSettle_transition: "attemptSettle p a s = transition p (terminal a) (payload a) s"
  by (cases a) (simp_all add: fulfill_def reject_def)

lemma terminal_not_pending: "terminal a \<noteq> Pending"
  by (cases a) simp_all

lemma attemptSettle_settled: "state (promises s p) \<noteq> Pending \<Longrightarrow> attemptSettle p a s = s"
  by (simp add: attemptSettle_transition transition_settled)

lemma settleAll_settled: "state (promises s p) \<noteq> Pending \<Longrightarrow> settleAll p as s = s"
  by (induction as arbitrary: s) (simp_all add: attemptSettle_settled)

lemma attemptSettle_state: "state (promises (attemptSettle p a s) p) \<noteq> Pending"
  by (cases "state (promises s p) = Pending")
     (simp_all add: attemptSettle_transition transition_pending transition_settled
        terminal_not_pending)

lemma settled_stays_call:
  assumes "p < nextp s" and "state (promises s p) \<noteq> Pending" and "call n f args s = Some c"
  shows "state (promises (world_of c) p) = state (promises s p) \<and>
         value_p (promises (world_of c) p) = value_p (promises s p)"
  using keeps_call[OF stable_settledKept assms(3), of p] assms(1,2)
  by (simp add: settledKept_def)

lemma settled_stays_runTasks:
  assumes "p < nextp s" and "state (promises s p) \<noteq> Pending" and "runTasks n k s = Some s'"
  shows "state (promises s' p) = state (promises s p) \<and>
         value_p (promises s' p) = value_p (promises s p)"
  using keeps_runTasks[OF stable_settledKept assms(3), of p] assms(1,2)
  by (simp add: settledKept_def)

text \<open>
  C1. Whatever the sequence of settlement attempts on an instance (\<open>_fulfill\<close> or
  \<open>_reject\<close>, in any order, any number of times), the whole sequence does what its first
  attempt does. On a pending instance the first attempt stores its state and its payload,
  leaves the registered callbacks as they are and schedules the drain; on a settled
  instance an attempt changes nothing at all, so every later attempt leaves state, payload
  and callbacks unchanged. And whatever runs afterwards, a call of any function with any
  arguments or any number of turns of the scheduler, foreign code included, an instance
  that exists and is settled keeps its state and its payload.
\<close>

theorem settle_at_most_once:
  "settleAll p (a # rest) s = attemptSettle p a s \<and>
   (state (promises s p) = Pending \<longrightarrow>
      promises (attemptSettle p a s) p =
        (promises s p)\<lparr>value_p := payload a, state := terminal a\<rparr> \<and>
      tasks (attemptSettle p a s) =
        tasks s @ [TFire p (if terminal a = Resolved then OnFulfilled else OnRejected)]) \<and>
   (state (promises s p) \<noteq> Pending \<longrightarrow> attemptSettle p a s = s) \<and>
   (p < nextp s \<and> state (promises s p) \<noteq> Pending \<and> call n f args s = Some c \<longrightarrow>
      state (promises (world_of c) p) = state (promises s p) \<and>
      value_p (promises (world_of c) p) = value_p (promises s p)) \<and>
   (p < nextp s \<and> state (promises s p) \<noteq> Pending \<and> runTasks m k s = Some s' \<longrightarrow>
      state (promises s' p) = state (promises s p) \<and>
      value_p (promises s' p) = value_p (promises s p))"
proof (intro conjI impI)
  show "settleAll p (a # rest) s = attemptSettle p a s"
    by (simp add: settleAll_settled attemptSettle_state)
next
  assume pend: "state (promises s p) = Pending"
  then show "promises (attemptSettle p a s) p =
        (promises s p)\<lparr>value_p := payload a, state := terminal a\<rparr>"
    by (simp add: attemptSettle_transition transition_pending terminal_not_pending)
  from pend show "tasks (attemptSettle p a s) =
        tasks s @ [TFire p (if terminal a = Resolved then OnFulfilled else OnRejected)]"
    by (simp add: attemptSettle_transition transition_pending terminal_not_pending)
next
  assume "state (promises s p) \<noteq> Pending"
  then show "attemptSettle p a s = s" by (rule attemptSettle_settled)
next
  assume a: "p < nextp s \<and> state (promises s p) \<noteq> Pending \<and> call n f args s = Some c"
  then show "state (promises (world_of c) p) = state (promises s p)"
    and "value_p (promises (world_of c) p) = value_p (promises s p)"
    using settled_stays_call by blast+
next
  assume a: "p < nextp s \<and> state (promises s p) \<noteq> Pending \<and> runTasks m k s = Some s'"
  then show "state (promises s' p) = state (promises s p)"
    and "value_p (promises s' p) = value_p (promises s p)"
    using settled_stays_runTasks by blast+
qed

text \<open>
  The theorem at three attempts on a pending instance, at an attempt on a settled one,
  and in \<open>registeredOne\<close>, whose instance 0 is resolved with 7: a later call of its
  \<open>_resolver\<close> with 9 and three turns of the scheduler leave it resolved with 7.
\<close>

theorem settle_at_most_once_witness:
  "state (promises (init noObjs) 0) = Pending \<and>
   promises (settleAll 0 [AFulfill (VNum 1), AReject (VNum 2), AFulfill (VNum 3)] (init noObjs)) 0 =
     \<lparr>value_p = VNum 1, state = Resolved, callbacks = []\<rparr> \<and>
   state (promises (fulfill 0 (VNum 1) (init noObjs)) 0) \<noteq> Pending \<and>
   attemptSettle 0 (AReject (VNum 2)) (fulfill 0 (VNum 1) (init noObjs)) =
     fulfill 0 (VNum 1) (init noObjs) \<and>
   0 < nextp registeredOne \<and> state (promises registeredOne 0) \<noteq> Pending \<and>
   \<not> Option.is_none (call 3 (VClosure (FResolver 0)) [VNum 9] registeredOne) \<and>
   settled (call 3 (VClosure (FResolver 0)) [VNum 9] registeredOne) 0 =
     Some (state (promises registeredOne 0), value_p (promises registeredOne 0)) \<and>
   \<not> Option.is_none (runTasks 20 3 registeredOne) \<and>
   state (promises (the (runTasks 20 3 registeredOne)) 0) = state (promises registeredOne 0) \<and>
   value_p (promises (the (runTasks 20 3 registeredOne)) 0) = VNum 7"
proof -
  let ?c = "call 3 (VClosure (FResolver 0)) [VNum 9] registeredOne"
  let ?r = "runTasks 20 3 registeredOne"
  note t1 = settle_at_most_once [of 0 "AFulfill (VNum 1)" "[AReject (VNum 2), AFulfill (VNum 3)]"
      "init noObjs"]
  note t2 = settle_at_most_once [of 0 "AReject (VNum 2)" "[]" "fulfill 0 (VNum 1) (init noObjs)"]
  note t3 = settle_at_most_once [of 0 "AReject (VNum 2)" "[]" registeredOne 3
      "VClosure (FResolver 0)" "[VNum 9]" "the ?c" 20 3 "the ?r"]
  have a1: "state (promises (init noObjs) 0) = Pending" by (simp add: init_def)
  from t1 a1
  have a2: "promises (settleAll 0 [AFulfill (VNum 1), AReject (VNum 2), AFulfill (VNum 3)] (init noObjs)) 0 =
     \<lparr>value_p = VNum 1, state = Resolved, callbacks = []\<rparr>"
    by (simp add: init_def)
  have a3: "state (promises (fulfill 0 (VNum 1) (init noObjs)) 0) \<noteq> Pending"
    by (simp add: init_def fulfill_def transition_def executeCallbacks_def runAsync_def)
  from t2 a3
  have a4: "attemptSettle 0 (AReject (VNum 2)) (fulfill 0 (VNum 1) (init noObjs)) =
     fulfill 0 (VNum 1) (init noObjs)"
    by blast
  have b1: "0 < nextp registeredOne" by code_simp
  have b2: "state (promises registeredOne 0) \<noteq> Pending" by code_simp
  have b3: "\<not> Option.is_none ?c" by code_simp
  then have e3: "?c = Some (the ?c)" by (simp add: Option.is_none_def)
  have b5: "\<not> Option.is_none ?r" by code_simp
  then have e5: "?r = Some (the ?r)" by (simp add: Option.is_none_def)
  from t3 b1 b2 e3
  have "state (promises (world_of (the ?c)) 0) = state (promises registeredOne 0) \<and>
        value_p (promises (world_of (the ?c)) 0) = value_p (promises registeredOne 0)"
    by blast
  with e3 have b4: "settled ?c 0 =
      Some (state (promises registeredOne 0), value_p (promises registeredOne 0))"
    by (metis settled.simps(2))
  from t3 b1 b2 e5
  have b6: "state (promises (the ?r) 0) = state (promises registeredOne 0)"
    and "value_p (promises (the ?r) 0) = value_p (promises registeredOne 0)"
    by blast+
  moreover have "value_p (promises registeredOne 0) = VNum 7" by code_simp
  ultimately have b7: "value_p (promises (the ?r) 0) = VNum 7" by simp
  show ?thesis
    by (rule conjI[OF a1 conjI[OF a2 conjI[OF a3 conjI[OF a4 conjI[OF b1 conjI[OF b2
          conjI[OF b3 conjI[OF b4 conjI[OF b5 conjI[OF b6 b7]]]]]]]]]])
qed

section \<open>Resolving a promise with itself\<close>

text \<open>
  C5. \<open>_resolver\<close> called on an instance with that same instance as the value returns
  (with any fuel left at all) and has done exactly \<open>_reject\<close> with the TypeError: a
  pending instance is then rejected with that error, a settled one is left as it was, and
  in no case is the instance pending afterwards.
\<close>

theorem self_resolution_rejects:
  "resolver (Suc n) p (VPromise p) s = Some (Ret VUndefined (reject p selfError s)) \<and>
   (state (promises s p) = Pending \<longrightarrow>
      state (promises (reject p selfError s) p) = Rejected \<and>
      value_p (promises (reject p selfError s) p) = selfError) \<and>
   (state (promises s p) \<noteq> Pending \<longrightarrow> reject p selfError s = s) \<and>
   state (promises (reject p selfError s) p) \<noteq> Pending"
  by (simp add: selfError_def reject_def transition_def executeCallbacks_def runAsync_def)

theorem self_resolution_rejects_witness:
  "state (promises (init noObjs) 0) = Pending \<and>
   settled (resolver 1 0 (VPromise 0) (init noObjs)) 0 = Some (Rejected, selfError) \<and>
   state (promises (fulfill 0 (VNum 1) (init noObjs)) 0) \<noteq> Pending \<and>
   settled (resolver 1 0 (VPromise 0) (fulfill 0 (VNum 1) (init noObjs))) 0 =
     Some (Resolved, VNum 1)"
  using self_resolution_rejects [of 0 0 "init noObjs"]
    self_resolution_rejects [of 0 0 "fulfill 0 (VNum 1) (init noObjs)"]
  by (simp add: init_def fulfill_def transition_def executeCallbacks_def runAsync_def)

section \<open>The static reject\<close>

text \<open>
  C8. \<open>HelloPromise.reject(r)\<close> returns, for every reason \<open>r\<close> and with four units of
  fuel or more, a new instance that is rejected with exactly \<open>r\<close>. Nothing else changes
  but the scheduled drain: no \<open>then\<close> is read, no callback registered and no foreign code
  entered (the trace is unchanged), no \<open>wasCalled\<close> variable made, whatever \<open>r\<close> is, a
  thenable or an instance included.
\<close>

theorem static_reject_stores_reason:
  "call (Suc (Suc (Suc (Suc n)))) (VClosure FStaticReject) [r] s =
     Some (Ret (VPromise (nextp s))
       (s\<lparr>promises := (promises s)(nextp s := \<lparr>value_p = r, state = Rejected, callbacks = []\<rparr>),
          nextp := Suc (nextp s),
          tasks := tasks s @ [TFire (nextp s) OnRejected]\<rparr>))"
  by (simp add: Let_def arg_def reject_def transition_def executeCallbacks_def runAsync_def)

section \<open>Callbacks fire in registration order, each once\<close>

lemma registered_append: "registered p (xs @ ys) = registered p xs @ registered p ys"
  by (induction p xs rule: registered.induct) simp_all

lemma fired_append: "fired p (xs @ ys) = fired p xs @ fired p ys"
  by (induction p xs rule: fired.induct) simp_all

lemma conservesI:
  assumes "p < nextp s \<Longrightarrow> p < nextp s'"
    and "p < nextp s \<Longrightarrow> trace s' = trace s @ d"
    and "p < nextp s \<Longrightarrow>
           callbacks (promises s p) @ registered p d = fired p d @ callbacks (promises s' p)"
  shows "conserves p s s'"
  using assms by (simp add: conserves_def newEvents_def)

lemma conservesD:
  assumes "conserves p s s'" and "p < nextp s"
  shows "p < nextp s'"
    and "trace s' = trace s @ newEvents s s'"
    and "callbacks (promises s p) @ registered p (newEvents s s') =
          fired p (newEvents s s') @ callbacks (promises s' p)"
proof -
  from assms show "p < nextp s'" by (simp add: conserves_def)
  from assms have "take (length (trace s)) (trace s') = trace s" by (simp add: conserves_def)
  then have "trace s @ drop (length (trace s)) (trace s') = trace s'"
    by (metis append_take_drop_id)
  then show "trace s' = trace s @ newEvents s s'" by (simp add: newEvents_def)
  from assms show "callbacks (promises s p) @ registered p (newEvents s s') =
          fired p (newEvents s s') @ callbacks (promises s' p)" by (simp add: conserves_def)
qed

lemma conserves_trans:
  assumes ab: "conserves p a b" and bc: "conserves p b c"
  shows "conserves p a c"
proof (rule conservesI [where d = "newEvents a b @ newEvents b c"])
  assume pa: "p < nextp a"
  note AB = conservesD[OF ab pa]
  note BC = conservesD[OF bc AB(1)]
  show "p < nextp c" by (rule BC(1))
  show "trace c = trace a @ newEvents a b @ newEvents b c"
    using AB(2) BC(2) by simp
  have "callbacks (promises a p) @ registered p (newEvents a b @ newEvents b c) =
        (callbacks (promises a p) @ registered p (newEvents a b)) @ registered p (newEvents b c)"
    by (simp add: registered_append)
  also have "\<dots> = fired p (newEvents a b) @ (callbacks (promises b p) @ registered p (newEvents b c))"
    using AB(3) by simp
  also have "\<dots> = fired p (newEvents a b @ newEvents b c) @ callbacks (promises c p)"
    using BC(3) by (simp add: fired_append)
  finally show "callbacks (promises a p) @ registered p (newEvents a b @ newEvents b c) =
        fired p (newEvents a b @ newEvents b c) @ callbacks (promises c p)" .
qed

lemma stable_conserves: "stable (conserves p)"
  unfolding stable_def
proof (intro conjI allI impI)
  fix a b c assume "conserves p a b" "conserves p b c"
  then show "conserves p a c" by (rule conserves_trans)
qed (auto simp: conserves_def newEvents_def transition_def addCallback_def executeCallbacks_def
       runAsync_def)

lemma fire_empties: "fire n p m s = Some (Ret r s') \<Longrightarrow> callbacks (promises s' p) = []"
proof (induction n arbitrary: s)
  case 0
  then show ?case by simp
next
  case (Suc n)
  then show ?case
    by (cases "callbacks (promises s p)") (auto split: option.splits completion.splits)
qed

text \<open>
  C6. For an instance \<open>p\<close> that exists, over any number of turns of the scheduler (so over
  any number of scheduled drains, of \<open>p\<close> and of other instances, and whatever the
  handlers do): the callbacks fired on \<open>p\<close> are, in order, a prefix of the callbacks that
  were queued at the start followed by those registered since, and the rest of that
  sequence is exactly what is still queued. So callbacks fire in registration order and
  none fires twice. A drain of \<open>p\<close> that returns has fired the whole sequence and left the
  queue empty, so a further drain finds nothing to fire.
\<close>

theorem reactions_fire_in_order_once:
  assumes "p < nextp s"
  shows "(runTasks n k s = Some s' \<longrightarrow>
            trace s' = trace s @ newEvents s s' \<and>
            callbacks (promises s p) @ registered p (newEvents s s') =
              fired p (newEvents s s') @ callbacks (promises s' p)) \<and>
         (fire n p m s = Some (Ret r s'') \<longrightarrow>
            fired p (newEvents s s'') = callbacks (promises s p) @ registered p (newEvents s s'') \<and>
            callbacks (promises s'' p) = [])"
proof (intro conjI impI)
  assume run: "runTasks n k s = Some s'"
  have c: "conserves p s s'" by (rule keeps_runTasks[OF stable_conserves run])
  from conservesD(2)[OF c assms] show "trace s' = trace s @ newEvents s s'" .
  from conservesD(3)[OF c assms]
  show "callbacks (promises s p) @ registered p (newEvents s s') =
          fired p (newEvents s s') @ callbacks (promises s' p)" .
next
  assume run: "fire n p m s = Some (Ret r s'')"
  have c: "conserves p s s''" using keeps_fire[OF stable_conserves run] by simp
  show e: "callbacks (promises s'' p) = []" by (rule fire_empties[OF run])
  from conservesD(3)[OF c assms] e
  show "fired p (newEvents s s'') = callbacks (promises s p) @ registered p (newEvents s s'')"
    by simp
qed

text \<open>
  The theorem at \<open>registeredOne\<close>, over three turns and over one drain: the handler of
  the first callback registers a second callback during the drain, and both fire, in
  that order, once.
\<close>

theorem reactions_fire_in_order_once_witness:
  "0 < nextp registeredOne \<and>
   \<not> Option.is_none (runTasks 20 3 registeredOne) \<and>
   callbacks (promises registeredOne 0) @
     registered 0 (newEvents registeredOne (the (runTasks 20 3 registeredOne))) =
   fired 0 (newEvents registeredOne (the (runTasks 20 3 registeredOne))) @
     callbacks (promises (the (runTasks 20 3 registeredOne)) 0) \<and>
   fired 0 (newEvents registeredOne (the (runTasks 20 3 registeredOne))) =
     [reaction (VObj 1) VUndefined 1, reaction (VObj 2) VUndefined 2] \<and>
   fired 0 (newEvents registeredOne (world_of (the (fire 20 0 OnFulfilled registeredOne)))) =
     callbacks (promises registeredOne 0) @
       registered 0 (newEvents registeredOne (world_of (the (fire 20 0 OnFulfilled registeredOne))))"
proof -
  let ?s' = "the (runTasks 20 3 registeredOne)"
  let ?c = "the (fire 20 0 OnFulfilled registeredOne)"
  have h0: "0 < nextp registeredOne" by code_simp
  have h1: "\<not> Option.is_none (runTasks 20 3 registeredOne)" by code_simp
  then have e1: "runTasks 20 3 registeredOne = Some ?s'" by (simp add: Option.is_none_def)
  have "case fire 20 0 OnFulfilled registeredOne of Some (Ret r s) \<Rightarrow> r = VUndefined | _ \<Rightarrow> False"
    by code_simp
  then have e2: "fire 20 0 OnFulfilled registeredOne = Some (Ret VUndefined (world_of ?c))"
    by (auto split: option.splits completion.splits)
  note t = reactions_fire_in_order_once [OF h0, of 20 3 ?s' OnFulfilled VUndefined "world_of ?c"]
  from t e1 have c1: "callbacks (promises registeredOne 0) @ registered 0 (newEvents registeredOne ?s') =
      fired 0 (newEvents registeredOne ?s') @ callbacks (promises ?s' 0)"
    by blast
  from t e2 have c2: "fired 0 (newEvents registeredOne (world_of ?c)) =
      callbacks (promises registeredOne 0) @ registered 0 (newEvents registeredOne (world_of ?c))"
    by blast
  have c3: "fired 0 (newEvents registeredOne ?s') =
      [reaction (VObj 1) VUndefined 1, reaction (VObj 2) VUndefined 2]"
    by code_simp
  show ?thesis by (rule conjI[OF h0 conjI[OF h1 conjI[OF c1 conjI[OF c3 c2]]]])
qed

section \<open>The two callbacks handed to a foreign then\<close>

text \<open>
  What holds of the two callbacks. Once the variable \<open>wasCalled\<close> is set, both return at
  once and change nothing; an invocation that returns leaves the variable set; and the
  variable stays set. So an invocation made after another one has returned, at once or
  any number of turns later, has no effect, as with the thenable of \<open>twice\<close>, whose second
  value is ignored.
\<close>

lemma once_callbacks_after_set:
  "wasCalled s l \<Longrightarrow>
   call (Suc n) (VClosure (FOnceResolver l p)) args s = Some (Ret VUndefined s) \<and>
   call (Suc n) (VClosure (FOnceReject l p)) args s = Some (Ret VUndefined s)"
  by (simp add: once_def)

lemma once_resolver_sets:
  "call (Suc n) (VClosure (FOnceResolver l p)) args s = Some c \<Longrightarrow> wasCalled (world_of c) l"
  using resolver_never_throws[of n p "arg 0 args" s]
  by (auto simp: once_def split: if_splits option.splits completion.splits)

lemma once_reject_sets:
  "call (Suc n) (VClosure (FOnceReject l p)) args s = Some c \<Longrightarrow> wasCalled (world_of c) l"
  by (auto simp: once_def split: if_splits)

lemma later_invocations_ignored:
  assumes "l < nextl s"
    and "call (Suc n) (VClosure (FOnceResolver l p)) args s = Some c \<or>
         call (Suc n) (VClosure (FOnceReject l p)) args s = Some c"
    and "runTasks m k (world_of c) = Some s'"
  shows "call (Suc j) (VClosure (FOnceResolver l p)) args' s' = Some (Ret VUndefined s') \<and>
         call (Suc j) (VClosure (FOnceReject l p)) args' s' = Some (Ret VUndefined s')"
proof -
  from assms(2) have set: "wasCalled (world_of c) l"
    using once_resolver_sets once_reject_sets by blast
  from assms(2) have "latchKept l s (world_of c)"
    using keeps_call[OF stable_latchKept] by blast
  with assms(1) have "l < nextl (world_of c)" by (simp add: latchKept_def)
  with keeps_runTasks[OF stable_latchKept assms(3), of l] set have "wasCalled s' l"
    by (simp add: latchKept_def)
  then show ?thesis by (simp add: once_def)
qed

lemma sequential_second_call_ignored:
  "settled (call 20 (VClosure FStaticResolve) [VObj 1] (init twice)) 0 = Some (Resolved, VNum 1)"
  by code_simp

text \<open>
  C2 (the code breaks it). \<open>once\<close> sets \<open>wasCalled\<close> only after \<open>fn\<close> has returned, so an
  invocation made while the first one is still running finds the variable unset. With
  the thenables of \<open>reentrant\<close>, \<^verbatim>\<open>HelloPromise.resolve(T1)\<close> calls \<open>T1.then\<close>, which
  saves its first callback and invokes it with \<open>T2\<close>; resolving with \<open>T2\<close> calls
  \<open>T2.then\<close>, which invokes the saved callback a second time, with 42. That second
  invocation settles the instance: it ends resolved with 42, where the claim has the
  second invocation ignored and the instance left waiting for \<open>T2\<close>.
\<close>

theorem reentrant_callback_settles:
  "settled (call 20 (VClosure FStaticResolve) [VObj 1] (init reentrant)) 0 = Some (Resolved, VNum 42) \<and>
   traceOf (call 20 (VClosure FStaticResolve) [VObj 1] (init reentrant)) =
     Some [EvGetThen (VObj 1),
           EvInvoke 3 [VClosure (FOnceResolver 0 0), VClosure (FOnceReject 0 0)],
           EvGetThen (VObj 2),
           EvInvoke 4 [VClosure (FOnceResolver 1 0), VClosure (FOnceReject 1 0)]]"
  by code_simp

section \<open>Registering and settling never run a handler\<close>



section \<open>What a drain does with a callback of then\<close>

lemma returned_value:
  "(case x of Some (Ret r s) \<Rightarrow> r = v | _ \<Rightarrow> False) \<Longrightarrow> x = Some (Ret v (world_of (the x)))"
  by (auto split: option.splits completion.splits)

lemma thrown_value:
  "(case x of Some (Thrown e s) \<Rightarrow> e = v | _ \<Rightarrow> False) \<Longrightarrow> x = Some (Thrown v (world_of (the x)))"
  by (auto split: option.splits completion.splits)

lemma returned_some: "\<not> Option.is_none x \<Longrightarrow> x = Some (the x)"
  by (cases x) simp_all

lemma member_returns:
  "isFunction s fn \<Longrightarrow> call (Suc n) fn [v] s = Some (Ret r s1) \<Longrightarrow>
   call (Suc (Suc n)) (VClosure (FMember fn fb (VClosure (FResolver q)) (VClosure (FReject q)))) [v] s =
     map_option (\<lambda>c. Ret VUndefined (world_of c)) (resolver n q r s1)"
  using resolver_never_throws[of n q r s1]
  by (auto simp: arg_def simp del: resolver.simps call.simps
        simp add: call.simps(2)[of "Suc n" "VClosure (FMember fn fb (VClosure (FResolver q)) (VClosure (FReject q)))"]
          call.simps(2)[of n "VClosure (FResolver q)"]
        split: option.splits completion.splits)

lemma member_throws:
  "isFunction s fn \<Longrightarrow> call (Suc n) fn [v] s = Some (Thrown e s1) \<Longrightarrow>
   call (Suc (Suc n)) (VClosure (FMember fn fb (VClosure (FResolver q)) (VClosure (FReject q)))) [v] s =
     Some (Ret VUndefined (reject q e s1))"
  by (auto simp: arg_def simp del: resolver.simps call.simps
        simp add: call.simps(2)[of "Suc n" "VClosure (FMember fn fb (VClosure (FResolver q)) (VClosure (FReject q)))"]
          call.simps(2)[of n "VClosure (FReject q)"])

lemma member_omitted:
  "\<not> isFunction s fn \<Longrightarrow>
   call (Suc (Suc n)) (VClosure (FMember fn fb rs rj)) [v] s = call (Suc n) fb [v] s"
  by (simp add: arg_def del: call.simps
        add: call.simps(2)[of "Suc n" "VClosure (FMember fn fb rs rj)"])

lemma then_effect:
  assumes "p < nextp s"
  shows "let s' = doing (call (Suc (Suc (Suc k))) (VClosure (FThen p)) [onF, onR]) s in
           promises s' (nextp s) = \<lparr>value_p = VNull, state = Pending, callbacks = []\<rparr> \<and>
           callbacks (promises s' p) = callbacks (promises s p) @ [reaction onF onR (nextp s)] \<and>
           state (promises s' p) = state (promises s p) \<and>
           value_p (promises s' p) = value_p (promises s p) \<and>
           tasks s' = tasks s @ drainOf (state (promises s p)) p \<and>
           trace s' = trace s @ [EvRegister p (reaction onF onR (nextp s))]"
  using assms
  by (simp add: doing_def then_call addCallback_def executeCallbacks_def runAsync_def drainOf_def
        newPromise_def Let_def del: call.simps)

lemma fire_shift:
  "callbacks (promises s p) = cb # rest \<Longrightarrow>
   fire (Suc n) p m s =
     (case call n (select m cb) [value_p (promises s p)] (shifted p cb rest s) of
        None \<Rightarrow> None
      | Some (Thrown e s1) \<Rightarrow> Some (Thrown e s1)
      | Some (Ret r s1) \<Rightarrow> fire n p m s1)"
  by (simp add: shifted_def del: call.simps)

lemma select_reaction:
  "select m (reaction onF onR q) =
     VClosure (FMember (handlerOf m onF onR)
       (case m of OnFulfilled \<Rightarrow> VClosure (FResolver q) | OnRejected \<Rightarrow> VClosure (FReject q))
       (VClosure (FResolver q)) (VClosure (FReject q)))"
  by (cases m) (simp_all add: reaction_def)

lemma isFunction_shifted: "isFunction (shifted p cb rest s) t = isFunction s t"
  by (rule isFunction_objs) (simp add: shifted_def)

lemma drain_returns:
  assumes "callbacks (promises s p) = reaction onF onR q # rest"
    and "isFunction s (handlerOf m onF onR)"
    and "call (Suc n) (handlerOf m onF onR) [value_p (promises s p)]
           (shifted p (reaction onF onR q) rest s) = Some (Ret r sh)"
  shows "fire (Suc (Suc (Suc n))) p m s =
           (case resolver n q r sh of
              None \<Rightarrow> None
            | Some c \<Rightarrow> fire (Suc (Suc n)) p m (world_of c))"
proof -
  let ?s2 = "shifted p (reaction onF onR q) rest s"
  from assms(2) have f: "isFunction ?s2 (handlerOf m onF onR)"
    by (simp only: isFunction_shifted)
  have "call (Suc (Suc n)) (select m (reaction onF onR q)) [value_p (promises s p)] ?s2 =
      map_option (\<lambda>c. Ret VUndefined (world_of c)) (resolver n q r sh)"
    unfolding select_reaction by (rule member_returns [OF f assms(3)])
  then show ?thesis
    unfolding fire_shift [OF assms(1), of "Suc (Suc n)" m]
    by (cases "resolver n q r sh") (simp_all del: fire.simps call.simps resolver.simps)
qed

lemma drain_throws:
  assumes "callbacks (promises s p) = reaction onF onR q # rest"
    and "isFunction s (handlerOf m onF onR)"
    and "call (Suc n) (handlerOf m onF onR) [value_p (promises s p)]
           (shifted p (reaction onF onR q) rest s) = Some (Thrown e sh)"
  shows "fire (Suc (Suc (Suc n))) p m s = fire (Suc (Suc n)) p m (reject q e sh)"
proof -
  let ?s2 = "shifted p (reaction onF onR q) rest s"
  from assms(2) have f: "isFunction ?s2 (handlerOf m onF onR)"
    by (simp only: isFunction_shifted)
  have "call (Suc (Suc n)) (select m (reaction onF onR q)) [value_p (promises s p)] ?s2 =
      Some (Ret VUndefined (reject q e sh))"
    unfolding select_reaction by (rule member_throws [OF f assms(3)])
  then show ?thesis
    unfolding fire_shift [OF assms(1), of "Suc (Suc n)" m]
    by (simp del: fire.simps call.simps resolver.simps)
qed

lemma drain_omitted_fulfilled:
  assumes "callbacks (promises s p) = reaction onF onR q # rest"
    and "\<not> isFunction s onF"
  shows "fire (Suc (Suc (Suc n))) p OnFulfilled s =
           (case resolver n q (value_p (promises s p)) (shifted p (reaction onF onR q) rest s) of
              None \<Rightarrow> None
            | Some c \<Rightarrow> fire (Suc (Suc n)) p OnFulfilled (world_of c))"
proof -
  let ?s2 = "shifted p (reaction onF onR q) rest s"
  let ?v = "value_p (promises s p)"
  from assms(2) have f: "\<not> isFunction ?s2 onF"
    by (simp only: isFunction_shifted not_False_eq_True)
  have "call (Suc (Suc n)) (select OnFulfilled (reaction onF onR q)) [?v] ?s2 =
      resolver n q ?v ?s2"
    unfolding select_reaction using f
    by (simp add: member_omitted arg_def del: call.simps resolver.simps
          add: call.simps(2)[of n "VClosure (FResolver q)"])
  then show ?thesis
    unfolding fire_shift [OF assms(1), of "Suc (Suc n)" OnFulfilled]
    using resolver_never_throws[of n q ?v ?s2]
    by (auto simp del: fire.simps call.simps resolver.simps
          split: option.splits completion.splits)
qed

lemma drain_omitted_rejected:
  assumes "callbacks (promises s p) = reaction onF onR q # rest"
    and "\<not> isFunction s onR"
  shows "fire (Suc (Suc (Suc n))) p OnRejected s =
           fire (Suc (Suc n)) p OnRejected
             (reject q (value_p (promises s p)) (shifted p (reaction onF onR q) rest s))"
proof -
  let ?s2 = "shifted p (reaction onF onR q) rest s"
  let ?v = "value_p (promises s p)"
  from assms(2) have f: "\<not> isFunction ?s2 onR"
    by (simp only: isFunction_shifted not_False_eq_True)
  have "call (Suc (Suc n)) (select OnRejected (reaction onF onR q)) [?v] ?s2 =
      Some (Ret VUndefined (reject q ?v ?s2))"
    unfolding select_reaction using f
    by (simp add: member_omitted arg_def del: call.simps resolver.simps
          add: call.simps(2)[of n "VClosure (FReject q)"])
  then show ?thesis
    unfolding fire_shift [OF assms(1), of "Suc (Suc n)" OnRejected]
    by (simp del: fire.simps call.simps resolver.simps)
qed

lemma settled_stays_fire:
  assumes "q < nextp s" and "state (promises s q) \<noteq> Pending" and "fire j p m s = Some c"
  shows "settled (Some c) q = Some (state (promises s q), value_p (promises s q))"
proof -
  have "settledKept q s (world_of c)"
    by (rule keeps_fire [OF stable_settledKept assms(3)])
  with assms(1,2) show ?thesis by (simp add: settledKept_def)
qed

lemma reject_pending:
  "state (promises s q) = Pending \<Longrightarrow>
   state (promises (reject q e s) q) = Rejected \<and> value_p (promises (reject q e s) q) = e \<and>
   nextp (reject q e s) = nextp s"
  by (simp add: reject_def transition_def executeCallbacks_def runAsync_def)

lemma drain_throws_end:
  assumes "callbacks (promises s p) = reaction onF onR q # rest"
    and "isFunction s (handlerOf m onF onR)"
    and "call (Suc n) (handlerOf m onF onR) [value_p (promises s p)]
           (shifted p (reaction onF onR q) rest s) = Some (Thrown e sh)"
    and "q < nextp sh" and "state (promises sh q) = Pending"
    and "fire (Suc (Suc (Suc n))) p m s = Some c"
  shows "settled (Some c) q = Some (Rejected, e)"
proof -
  from assms(6) have "fire (Suc (Suc n)) p m (reject q e sh) = Some c"
    by (simp only: drain_throws [OF assms(1-3)])
  from settled_stays_fire [OF _ _ this] reject_pending [OF assms(5), of e] assms(4)
  show ?thesis by simp
qed

lemma drain_omitted_rejected_end:
  assumes "callbacks (promises s p) = reaction onF onR q # rest"
    and "\<not> isFunction s onR"
    and "q \<noteq> p" and "q < nextp s" and "state (promises s q) = Pending"
    and "fire (Suc (Suc (Suc n))) p OnRejected s = Some c"
  shows "settled (Some c) q = Some (Rejected, value_p (promises s p))"
proof -
  let ?s2 = "shifted p (reaction onF onR q) rest s"
  from assms(6) have "fire (Suc (Suc n)) p OnRejected (reject q (value_p (promises s p)) ?s2) = Some c"
    by (simp only: drain_omitted_rejected [OF assms(1,2)])
  moreover have "state (promises ?s2 q) = Pending" and "q < nextp ?s2"
    using assms(3-5) by (simp_all add: shifted_def)
  ultimately show ?thesis
    using settled_stays_fire [of q "reject q (value_p (promises s p)) ?s2" "Suc (Suc n)" p OnRejected c]
      reject_pending [of ?s2 q "value_p (promises s p)"]
    by simp
qed

section \<open>Resolution through instances and through thenables\<close>

lemma own_promise_link:
  "p \<noteq> q \<Longrightarrow>
   resolver (Suc (Suc (Suc (Suc n)))) p (VPromise q) s =
     Some (Ret (VPromise (nextp s))
       (addCallback q (reaction (VClosure (FResolver p)) (VClosure (FReject p)) (nextp s))
          (newPromise s)))"
  by (simp del: call.simps add: then_call)

lemma own_promise_link_effect:
  assumes "p \<noteq> q" and "p < nextp s" and "q < nextp s"
  shows "let s' = doing (resolver (Suc (Suc (Suc (Suc n)))) p (VPromise q)) s in
           resolver (Suc (Suc (Suc (Suc n)))) p (VPromise q) s = Some (Ret (VPromise (nextp s)) s') \<and>
           promises s' p = promises s p \<and>
           callbacks (promises s' q) =
             callbacks (promises s q) @
               [reaction (VClosure (FResolver p)) (VClosure (FReject p)) (nextp s)] \<and>
           state (promises s' q) = state (promises s q) \<and>
           value_p (promises s' q) = value_p (promises s q) \<and>
           tasks s' = tasks s @ drainOf (state (promises s q)) q \<and>
           trace s' =
             trace s @
               [EvRegister q (reaction (VClosure (FResolver p)) (VClosure (FReject p)) (nextp s))]"
  using assms
  by (simp add: doing_def own_promise_link addCallback_def executeCallbacks_def runAsync_def
        drainOf_def newPromise_def Let_def del: resolver.simps)

lemma link_fired_fulfilled:
  assumes "callbacks (promises d q) =
             reaction (VClosure (FResolver p)) (VClosure (FReject p)) u # rest"
    and "resolver n p (value_p (promises d q))
           (shifted q (reaction (VClosure (FResolver p)) (VClosure (FReject p)) u) rest d) =
         Some (Ret r sh)"
  shows "fire (Suc (Suc (Suc n))) q OnFulfilled d =
           (case resolver n u r sh of
              None \<Rightarrow> None
            | Some c \<Rightarrow> fire (Suc (Suc n)) q OnFulfilled (world_of c))"
proof -
  have "call (Suc n) (handlerOf OnFulfilled (VClosure (FResolver p)) (VClosure (FReject p)))
          [value_p (promises d q)]
          (shifted q (reaction (VClosure (FResolver p)) (VClosure (FReject p)) u) rest d) =
        Some (Ret r sh)"
    using assms(2) by (simp add: arg_def del: resolver.simps)
  from drain_returns [OF assms(1) _ this] show ?thesis by simp
qed

lemma link_fired_rejected:
  assumes "callbacks (promises d q) =
             reaction (VClosure (FResolver p)) (VClosure (FReject p)) u # rest"
  shows "fire (Suc (Suc (Suc n))) q OnRejected d =
           (case resolver n u VUndefined
                   (reject p (value_p (promises d q))
                      (shifted q (reaction (VClosure (FResolver p)) (VClosure (FReject p)) u) rest d)) of
              None \<Rightarrow> None
            | Some c \<Rightarrow> fire (Suc (Suc n)) q OnRejected (world_of c))"
proof -
  have "call (Suc n) (handlerOf OnRejected (VClosure (FResolver p)) (VClosure (FReject p)))
          [value_p (promises d q)]
          (shifted q (reaction (VClosure (FResolver p)) (VClosure (FReject p)) u) rest d) =
        Some (Ret VUndefined
          (reject p (value_p (promises d q))
             (shifted q (reaction (VClosure (FResolver p)) (VClosure (FReject p)) u) rest d)))"
    by (simp add: arg_def)
  from drain_returns [OF assms(1) _ this] show ?thesis by simp
qed

lemma once_resolver_call:
  "\<not> wasCalled s l \<Longrightarrow>
   call (Suc n) (VClosure (FOnceResolver l p)) [y] s =
     map_option (\<lambda>c. Ret VUndefined ((world_of c)\<lparr>wasCalled := (wasCalled (world_of c))(l := True)\<rparr>))
       (resolver n p y s)"
  using resolver_never_throws[of n p y s]
  by (auto simp: once_def arg_def split: option.splits completion.splits)

text \<open>
  C9, as the code has it. Resolving \<open>p\<close> with another instance \<open>q\<close> does what
  \<open>q.then(p._resolver, p._reject)\<close> does and no more: the call returns the new instance
  of \<open>then\<close>, leaves \<open>p\<close> as it was, appends one callback over \<open>_resolver\<close> and \<open>_reject\<close>
  of \<open>p\<close> to the queue of \<open>q\<close>, adds the registration to the trace and nothing else, and
  hands a drain of \<open>q\<close> to the scheduler when \<open>q\<close> is settled already. The next
  resolution step of \<open>p\<close> is made by the drain of \<open>q\<close> that finds this callback first in
  the queue, in a world \<open>d\<close>: a drain of fulfilment calls \<open>_resolver\<close> of \<open>p\<close> with the value
  of \<open>q\<close>, a drain of rejection calls \<open>_reject\<close> of \<open>p\<close> with it (and both then resolve the
  instance \<open>u\<close> of \<open>then\<close> with what the call returned). Nothing here says which turn that
  drain is: for a callback registered by a handler that a drain of \<open>q\<close> is running it is
  the same turn, as the last part shows on \<open>relinkStart\<close>, where the handler creates the
  instance 2 and resolves it with the instance 0 while the one drain of the instance 0
  runs.

  Resolving through a foreign thenable is different: the callback handed to its \<open>then\<close>,
  when invoked with \<open>wasCalled\<close> unset, runs \<open>_resolver\<close> itself before it returns, on the
  stack of the thenable's call.
\<close>

theorem resolution_links:
  "(p \<noteq> q \<and> p < nextp s \<and> q < nextp s \<longrightarrow>
      (let s' = doing (resolver (Suc (Suc (Suc (Suc k)))) p (VPromise q)) s in
         resolver (Suc (Suc (Suc (Suc k)))) p (VPromise q) s = Some (Ret (VPromise (nextp s)) s') \<and>
         promises s' p = promises s p \<and>
         callbacks (promises s' q) =
           callbacks (promises s q) @
             [reaction (VClosure (FResolver p)) (VClosure (FReject p)) (nextp s)] \<and>
         state (promises s' q) = state (promises s q) \<and>
         value_p (promises s' q) = value_p (promises s q) \<and>
         tasks s' = tasks s @ drainOf (state (promises s q)) q \<and>
         trace s' =
           trace s @
             [EvRegister q (reaction (VClosure (FResolver p)) (VClosure (FReject p)) (nextp s))])) \<and>
   (callbacks (promises d q) = reaction (VClosure (FResolver p)) (VClosure (FReject p)) u # rest \<and>
    resolver n p (value_p (promises d q))
      (shifted q (reaction (VClosure (FResolver p)) (VClosure (FReject p)) u) rest d) =
      Some (Ret r sh) \<longrightarrow>
      fire (Suc (Suc (Suc n))) q OnFulfilled d =
        (case resolver n u r sh of
           None \<Rightarrow> None
         | Some c \<Rightarrow> fire (Suc (Suc n)) q OnFulfilled (world_of c))) \<and>
   (callbacks (promises d q) = reaction (VClosure (FResolver p)) (VClosure (FReject p)) u # rest \<longrightarrow>
      fire (Suc (Suc (Suc n))) q OnRejected d =
        (case resolver n u VUndefined
                (reject p (value_p (promises d q))
                   (shifted q (reaction (VClosure (FResolver p)) (VClosure (FReject p)) u) rest d)) of
           None \<Rightarrow> None
         | Some c \<Rightarrow> fire (Suc (Suc n)) q OnRejected (world_of c))) \<and>
   (\<not> wasCalled s l \<longrightarrow>
      call (Suc m) (VClosure (FOnceResolver l p)) [y] s =
        map_option (\<lambda>c. Ret VUndefined ((world_of c)\<lparr>wasCalled := (wasCalled (world_of c))(l := True)\<rparr>))
          (resolver m p y s)) \<and>
   nextp relinkStart = 2 \<and>
   tasks relinkStart = [TFire 0 OnFulfilled, TFire 0 OnFulfilled] \<and>
   map_option
       (\<lambda>s. (vars s 0, state (promises s 2), value_p (promises s 2), registered 0 (newEvents relinkStart s),
             fired 0 (newEvents relinkStart s)))
       (runTask 12 relinkStart) =
     Some (VPromise 2, Resolved, VNum 7,
           [reaction (VClosure (FResolver 2)) (VClosure (FReject 2)) 3],
           [reaction (VObj 1) VUndefined 1,
            reaction (VClosure (FResolver 2)) (VClosure (FReject 2)) 3])"
proof -
  have c1: "p \<noteq> q \<and> p < nextp s \<and> q < nextp s \<longrightarrow>
      (let s' = doing (resolver (Suc (Suc (Suc (Suc k)))) p (VPromise q)) s in
         resolver (Suc (Suc (Suc (Suc k)))) p (VPromise q) s = Some (Ret (VPromise (nextp s)) s') \<and>
         promises s' p = promises s p \<and>
         callbacks (promises s' q) =
           callbacks (promises s q) @
             [reaction (VClosure (FResolver p)) (VClosure (FReject p)) (nextp s)] \<and>
         state (promises s' q) = state (promises s q) \<and>
         value_p (promises s' q) = value_p (promises s q) \<and>
         tasks s' = tasks s @ drainOf (state (promises s q)) q \<and>
         trace s' =
           trace s @
             [EvRegister q (reaction (VClosure (FResolver p)) (VClosure (FReject p)) (nextp s))])"
    using own_promise_link_effect [of p q s k] by blast
  have c2: "callbacks (promises d q) = reaction (VClosure (FResolver p)) (VClosure (FReject p)) u # rest \<and>
    resolver n p (value_p (promises d q))
      (shifted q (reaction (VClosure (FResolver p)) (VClosure (FReject p)) u) rest d) =
      Some (Ret r sh) \<longrightarrow>
      fire (Suc (Suc (Suc n))) q OnFulfilled d =
        (case resolver n u r sh of
           None \<Rightarrow> None
         | Some c \<Rightarrow> fire (Suc (Suc n)) q OnFulfilled (world_of c))"
    using link_fired_fulfilled [of d q p u rest n r sh] by blast
  have c3: "callbacks (promises d q) = reaction (VClosure (FResolver p)) (VClosure (FReject p)) u # rest \<longrightarrow>
      fire (Suc (Suc (Suc n))) q OnRejected d =
        (case resolver n u VUndefined
                (reject p (value_p (promises d q))
                   (shifted q (reaction (VClosure (FResolver p)) (VClosure (FReject p)) u) rest d)) of
           None \<Rightarrow> None
         | Some c \<Rightarrow> fire (Suc (Suc n)) q OnRejected (world_of c))"
    using link_fired_rejected [of d q p u rest n] by blast
  have c4: "\<not> wasCalled s l \<longrightarrow>
      call (Suc m) (VClosure (FOnceResolver l p)) [y] s =
        map_option (\<lambda>c. Ret VUndefined ((world_of c)\<lparr>wasCalled := (wasCalled (world_of c))(l := True)\<rparr>))
          (resolver m p y s)"
    using once_resolver_call [of s l m p y] by blast
  have c5: "nextp relinkStart = 2" by code_simp
  have c6: "tasks relinkStart = [TFire 0 OnFulfilled, TFire 0 OnFulfilled]" by code_simp
  have c7: "map_option
       (\<lambda>s. (vars s 0, state (promises s 2), value_p (promises s 2), registered 0 (newEvents relinkStart s),
             fired 0 (newEvents relinkStart s)))
       (runTask 12 relinkStart) =
     Some (VPromise 2, Resolved, VNum 7,
           [reaction (VClosure (FResolver 2)) (VClosure (FReject 2)) 3],
           [reaction (VObj 1) VUndefined 1,
            reaction (VClosure (FResolver 2)) (VClosure (FReject 2)) 3])"
    by code_simp
  show ?thesis
    by (rule conjI[OF c1 conjI[OF c2 conjI[OF c3 conjI[OF c4 conjI[OF c5 conjI[OF c6 c7]]]]]])
qed

text \<open>
  The theorem in \<open>twoPending\<close>: resolving the instance 1 with the instance 0, with fuel 4,
  leaves the world \<open>linked\<close>; once the instance 0 is fulfilled with 7 (or rejected with
  \<open>'no'\<close>) its drain, with fuel 4, resolves the instance 1 with 7 (or rejects it with
  \<open>'no'\<close>); and the callback of a \<open>wasCalled\<close> variable that is unset, invoked with 5.
\<close>

theorem resolution_links_witness:
  "(1::nat) \<noteq> 0 \<and> 1 < nextp twoPending \<and> 0 < nextp twoPending \<and>
   (let s' = doing (resolver (Suc (Suc (Suc (Suc 0)))) 1 (VPromise 0)) twoPending in
      resolver (Suc (Suc (Suc (Suc 0)))) 1 (VPromise 0) twoPending =
        Some (Ret (VPromise (nextp twoPending)) s') \<and>
      promises s' 1 = promises twoPending 1 \<and>
      callbacks (promises s' 0) =
        callbacks (promises twoPending 0) @
          [reaction (VClosure (FResolver 1)) (VClosure (FReject 1)) (nextp twoPending)] \<and>
      state (promises s' 0) = state (promises twoPending 0) \<and>
      value_p (promises s' 0) = value_p (promises twoPending 0) \<and>
      tasks s' = tasks twoPending @ drainOf (state (promises twoPending 0)) 0 \<and>
      trace s' =
        trace twoPending @
          [EvRegister 0 (reaction (VClosure (FResolver 1)) (VClosure (FReject 1)) (nextp twoPending))]) \<and>
   state (promises linked 1) = Pending \<and> tasks linked = [] \<and>
   callbacks (promises (fulfill 0 (VNum 7) linked) 0) =
     [reaction (VClosure (FResolver 1)) (VClosure (FReject 1)) 2] \<and>
   tasks (fulfill 0 (VNum 7) linked) = [TFire 0 OnFulfilled] \<and>
   settled (fire (Suc (Suc (Suc (Suc 0)))) 0 OnFulfilled (fulfill 0 (VNum 7) linked)) 1 =
     Some (Resolved, VNum 7) \<and>
   callbacks (promises (reject 0 (VStr ''no'') linked) 0) =
     [reaction (VClosure (FResolver 1)) (VClosure (FReject 1)) 2] \<and>
   tasks (reject 0 (VStr ''no'') linked) = [TFire 0 OnRejected] \<and>
   settled (fire (Suc (Suc (Suc (Suc 0)))) 0 OnRejected (reject 0 (VStr ''no'') linked)) 1 =
     Some (Rejected, VStr ''no'') \<and>
   \<not> wasCalled twoPending 0 \<and>
   call (Suc (Suc 0)) (VClosure (FOnceResolver 0 1)) [VNum 5] twoPending =
     map_option (\<lambda>c. Ret VUndefined ((world_of c)\<lparr>wasCalled := (wasCalled (world_of c))(0 := True)\<rparr>))
       (resolver (Suc 0) 1 (VNum 5) twoPending) \<and>
   settled (call (Suc (Suc 0)) (VClosure (FOnceResolver 0 1)) [VNum 5] twoPending) 1 =
     Some (Resolved, VNum 5)"
proof -
  let ?F = "fulfill 0 (VNum 7) linked"
  let ?R = "reject 0 (VStr ''no'') linked"
  let ?cb = "reaction (VClosure (FResolver 1)) (VClosure (FReject 1)) 2"
  let ?four = "Suc (Suc (Suc (Suc 0)))"
  (* the resolving call *)
  have h1: "(1::nat) \<noteq> 0" by simp
  have h2: "1 < nextp twoPending" and h3: "0 < nextp twoPending" by code_simp+
  note t1 = resolution_links [where p = 1 and q = 0 and s = twoPending and k = 0, THEN conjunct1]
  note r1 = mp [OF t1 conjI [OF h1 conjI [OF h2 h3]]]
  have w: "state (promises linked 1) = Pending" "tasks linked = []"
    "tasks ?F = [TFire 0 OnFulfilled]" "tasks ?R = [TFire 0 OnRejected]"
    by code_simp+
  (* the drain of the fulfilled instance *)
  let ?a = "resolver (Suc 0) 1 (value_p (promises ?F 0)) (shifted 0 ?cb [] ?F)"
  have qf: "callbacks (promises ?F 0) = ?cb # []" by code_simp
  have "case ?a of Some (Ret r s) \<Rightarrow> r = VUndefined | _ \<Rightarrow> False" by code_simp
  then have a: "?a = Some (Ret VUndefined (world_of (the ?a)))"
    by (rule returned_value)
  note t2 = resolution_links [where p = 1 and q = 0 and d = ?F and u = 2 and rest = "[]"
      and n = "Suc 0" and r = VUndefined and sh = "world_of (the ?a)",
      THEN conjunct2, THEN conjunct1]
  note e2 = mp [OF t2 conjI [OF qf a]]
  have "settled (case resolver (Suc 0) 2 VUndefined (world_of (the ?a)) of
           None \<Rightarrow> None
         | Some c \<Rightarrow> fire (Suc (Suc (Suc 0))) 0 OnFulfilled (world_of c)) 1 = Some (Resolved, VNum 7)"
    by code_simp
  with e2 have r2: "settled (fire ?four 0 OnFulfilled ?F) 1 = Some (Resolved, VNum 7)"
    by (simp only:)
  (* the drain of the rejected instance *)
  have qr: "callbacks (promises ?R 0) = ?cb # []" by code_simp
  note t3 = resolution_links [where p = 1 and q = 0 and d = ?R and u = 2 and rest = "[]"
      and n = "Suc 0", THEN conjunct2, THEN conjunct2, THEN conjunct1]
  note e3 = mp [OF t3 qr]
  have "settled (case resolver (Suc 0) 2 VUndefined
                (reject 1 (value_p (promises ?R 0)) (shifted 0 ?cb [] ?R)) of
           None \<Rightarrow> None
         | Some c \<Rightarrow> fire (Suc (Suc (Suc 0))) 0 OnRejected (world_of c)) 1 =
      Some (Rejected, VStr ''no'')"
    by code_simp
  with e3 have r3: "settled (fire ?four 0 OnRejected ?R) 1 = Some (Rejected, VStr ''no'')"
    by (simp only:)
  (* the callback handed to a foreign then *)
  have h4: "\<not> wasCalled twoPending 0" by code_simp
  note t4 = resolution_links [where s = twoPending and l = 0 and m = "Suc 0" and p = 1
      and y = "VNum 5", THEN conjunct2, THEN conjunct2, THEN conjunct2, THEN conjunct1]
  note r4 = mp [OF t4 h4]
  have r5: "settled (call (Suc (Suc 0)) (VClosure (FOnceResolver 0 1)) [VNum 5] twoPending) 1 =
     Some (Resolved, VNum 5)"
    by code_simp
  have qf': "callbacks (promises ?F 0) = [?cb]" by (rule qf)
  have qr': "callbacks (promises ?R 0) = [?cb]" by (rule qr)
  show ?thesis
    by (rule conjI[OF h1 conjI[OF h2 conjI[OF h3 conjI[OF r1 conjI[OF w(1) conjI[OF w(2)
          conjI[OF qf' conjI[OF w(3) conjI[OF r2 conjI[OF qr' conjI[OF w(4) conjI[OF r3
          conjI[OF h4 conjI[OF r4 r5]]]]]]]]]]]]]])
qed

text \<open>
  C9 as stated fails for thenables that call back at once. The world \<open>init chain\<close> has
  nothing scheduled, and the one call \<^verbatim>\<open>HelloPromise.resolve(T1)\<close> returns with the
  instance already resolved with 42, through all three links, before any unit of work of
  the scheduler ran; the only thing it scheduled is the drain of the settled instance.
  The links are nested calls: three links need 20 units of fuel, two need 15, one needs
  10 (each body here is one statement, so fuel counts nesting only).
\<close>

theorem thenable_chain_resolved_in_one_call:
  "tasks (init chain) = [] \<and>
   settled (call 20 (VClosure FStaticResolve) [VObj 1] (init chain)) 0 = Some (Resolved, VNum 42) \<and>
   tasksOf (call 20 (VClosure FStaticResolve) [VObj 1] (init chain)) = Some [TFire 0 OnFulfilled] \<and>
   settled (call 19 (VClosure FStaticResolve) [VObj 1] (init chain)) 0 = None \<and>
   settled (call 15 (VClosure FStaticResolve) [VObj 2] (init chain)) 0 = Some (Resolved, VNum 42) \<and>
   settled (call 14 (VClosure FStaticResolve) [VObj 2] (init chain)) 0 = None \<and>
   settled (call 10 (VClosure FStaticResolve) [VObj 3] (init chain)) 0 = Some (Resolved, VNum 42) \<and>
   settled (call 9 (VClosure FStaticResolve) [VObj 3] (init chain)) 0 = None"
  by code_simp

section \<open>Ordinary values fulfil directly\<close>

lemma resolver_ordinary:
  assumes pend: "state (promises s p) = Pending" and ord: "ordinary n p v s"
  shows "settled (resolver (Suc (Suc n)) p v s) p = Some (Resolved, v)"
proof -
  from ord have np: "\<not> isPromise v" by (simp add: ordinary_def)
  then have ne: "v \<noteq> VPromise p" by auto
  show ?thesis
  proof (cases "(isObject s v \<or> isFunction s v) \<and> truthy v")
    case False
    with np ne have "resolver (Suc (Suc n)) p v s = Some (Ret VUndefined (fulfill p v s))"
      by (auto simp del: handleThen.simps)
    with settled_fulfill[OF pend] show ?thesis by simp
  next
    case True
    with ord obtain t s1 where g: "getThen n v (newLatch s) = Some (Ret t s1)"
      and nf: "\<not> isFunction s1 t" and p1: "state (promises s1 p) = Pending"
      and l1: "\<not> wasCalled s1 (nextl s)"
      by (auto simp: ordinary_def split: option.splits completion.splits)
    from True np ne have "resolver (Suc (Suc n)) p v s = handleThen (Suc n) p v s"
      by (simp del: handleThen.simps)
    also from g nf l1 have "\<dots> =
        Some (Ret VUndefined
          ((fulfill p v s1)\<lparr>wasCalled := (wasCalled (fulfill p v s1))(nextl s := True)\<rparr>))"
      by (simp add: handleThen_unfold once_def del: handleThen.simps)
    finally show ?thesis using settled_fulfill[OF p1] by simp
  qed
qed

text \<open>
  C7, as the code has it. When \<open>v\<close> is ordinary for \<open>p\<close> (not an instance; and if it is a
  non-null object or a function, the read of its \<open>then\<close> returns normally a value that
  is not a function, leaving \<open>p\<close> pending), \<open>_resolver\<close> on a pending \<open>p\<close> returns with \<open>p\<close>
  resolved with exactly \<open>v\<close>; and \<^verbatim>\<open>HelloPromise.resolve(v)\<close> returns a new instance
  resolved with exactly \<open>v\<close>.
\<close>

theorem ordinary_value_fulfills:
  "(state (promises s p) = Pending \<and> ordinary n p v s \<longrightarrow>
      settled (resolver (Suc (Suc n)) p v s) p = Some (Resolved, v)) \<and>
   (ordinary n (nextp s) v (newPromise s) \<longrightarrow>
      settled (call (Suc (Suc (Suc (Suc (Suc (Suc n)))))) (VClosure FStaticResolve) [v] s) (nextp s) =
        Some (Resolved, v))"
proof (intro conjI impI)
  assume "state (promises s p) = Pending \<and> ordinary n p v s"
  then show "settled (resolver (Suc (Suc n)) p v s) p = Some (Resolved, v)"
    using resolver_ordinary by blast
next
  assume ord: "ordinary n (nextp s) v (newPromise s)"
  from resolver_ordinary[OF newPromise_pending ord]
  show "settled (call (Suc (Suc (Suc (Suc (Suc (Suc n)))))) (VClosure FStaticResolve) [v] s) (nextp s) =
        Some (Resolved, v)"
    by (cases "resolver (Suc (Suc n)) (nextp s) v (newPromise s)")
       (simp_all add: static_resolve_call del: call.simps resolver.simps)
qed

text \<open>
  The theorem at a number on a pending instance, and at a plain object (no \<open>then\<close>) for
  the static \<open>resolve\<close>.
\<close>

theorem ordinary_value_fulfills_witness:
  "state (promises twoPending 0) = Pending \<and> ordinary (Suc 0) 0 (VNum 5) twoPending \<and>
   settled (resolver (Suc (Suc (Suc 0))) 0 (VNum 5) twoPending) 0 = Some (Resolved, VNum 5) \<and>
   ordinary (Suc 0) (nextp twoPending) (VObj 1) (newPromise twoPending) \<and>
   settled (call (Suc (Suc (Suc (Suc (Suc (Suc (Suc 0))))))) (VClosure FStaticResolve) [VObj 1] twoPending)
      (nextp twoPending) = Some (Resolved, VObj 1)"
proof -
  have h1: "state (promises twoPending 0) = Pending" by code_simp
  have h2: "ordinary (Suc 0) 0 (VNum 5) twoPending" by code_simp
  have h3: "ordinary (Suc 0) (nextp twoPending) (VObj 1) (newPromise twoPending)" by code_simp
  note t = ordinary_value_fulfills [of twoPending 0 "Suc 0" "VNum 5"]
  note u = ordinary_value_fulfills [of twoPending 0 "Suc 0" "VObj 1"]
  from t h1 h2 have c1: "settled (resolver (Suc (Suc (Suc 0))) 0 (VNum 5) twoPending) 0 =
      Some (Resolved, VNum 5)"
    by blast
  from u h3 have c2:
    "settled (call (Suc (Suc (Suc (Suc (Suc (Suc (Suc 0))))))) (VClosure FStaticResolve) [VObj 1] twoPending)
      (nextp twoPending) = Some (Resolved, VObj 1)"
    by blast
  show ?thesis by (rule conjI[OF h1 conjI[OF h2 conjI[OF c1 conjI[OF h3 c2]]]])
qed

text \<open>
  C7 as stated fails for an object whose \<open>then\<close> cannot be read. Object 1 of \<open>throwing\<close>
  is not an instance, is not callable and has no callable \<open>then\<close> member (its \<open>then\<close> is
  an accessor that throws), yet \<^verbatim>\<open>HelloPromise.resolve\<close> of it returns an instance
  rejected with what the accessor threw.
\<close>

theorem throwing_getter_rejects:
  "\<not> isPromise (VObj 1) \<and> \<not> isFunction (init throwing) (VObj 1) \<and>
   then_prop (throwing 1) = Getter [Throw (Lit (VStr ''boom''))] \<and>
   settled (call 8 (VClosure FStaticResolve) [VObj 1] (init throwing)) 0 =
     Some (Rejected, VStr ''boom'')"
  by code_simp

section \<open>Reading then\<close>

text \<open>
  C10. \<open>_handleThen\<close> reads \<open>value.then\<close> once: with the fresh \<open>wasCalled\<close> variable in
  place it makes one read, and everything it does afterwards is a function of how that
  one read ended (\<open>afterRead\<close>, which never reads the property). When the read throws
  \<open>e\<close> and the variable is still unset, it returns having done \<open>_reject\<close> with \<open>e\<close>, so a
  container that is pending then is rejected with \<open>e\<close>; when the variable has been set
  meanwhile, it returns and changes nothing. A read of a data property logs exactly one
  read and returns the property, and on an object whose \<open>then\<close> is a data property that
  is not a function the whole of \<open>_handleThen\<close> adds that one read to the trace and
  nothing else.
\<close>

theorem then_read_once:
  "handleThen (Suc n) p v s = afterRead n p v (nextl s) (getThen n v (newLatch s)) \<and>
   (getThen n v (newLatch s) = Some (Thrown e s1) \<and> \<not> wasCalled s1 (nextl s) \<longrightarrow>
      handleThen (Suc n) p v s =
        Some (Ret VUndefined
          ((reject p e s1)\<lparr>wasCalled := (wasCalled (reject p e s1))(nextl s := True)\<rparr>)) \<and>
      (state (promises s1 p) = Pending \<longrightarrow>
         settled (handleThen (Suc n) p v s) p = Some (Rejected, e))) \<and>
   (getThen n v (newLatch s) = Some (Thrown e s1) \<and> wasCalled s1 (nextl s) \<longrightarrow>
      handleThen (Suc n) p v s = Some (Ret VUndefined s1)) \<and>
   (then_prop (objs s ob) = Data t \<longrightarrow>
      getThen (Suc n) (VObj ob) s =
        Some (Ret t (s\<lparr>trace := trace s @ [EvGetThen (VObj ob)]\<rparr>))) \<and>
   (then_prop (objs s ob) = Data t \<and> \<not> isFunction s t \<longrightarrow>
      traceOf (handleThen (Suc (Suc n)) p (VObj ob) s) = Some (trace s @ [EvGetThen (VObj ob)]))"
proof (intro conjI impI)
  show "handleThen (Suc n) p v s = afterRead n p v (nextl s) (getThen n v (newLatch s))"
    by (rule handleThen_afterRead)
next
  assume a: "getThen n v (newLatch s) = Some (Thrown e s1) \<and> \<not> wasCalled s1 (nextl s)"
  then show r: "handleThen (Suc n) p v s =
        Some (Ret VUndefined
          ((reject p e s1)\<lparr>wasCalled := (wasCalled (reject p e s1))(nextl s := True)\<rparr>))"
    by (simp add: handleThen_afterRead afterRead_def once_def del: handleThen.simps)
  assume "state (promises s1 p) = Pending"
  from settled_reject[OF this] r
  show "settled (handleThen (Suc n) p v s) p = Some (Rejected, e)"
    by (simp del: handleThen.simps)
next
  assume "getThen n v (newLatch s) = Some (Thrown e s1) \<and> wasCalled s1 (nextl s)"
  then show "handleThen (Suc n) p v s = Some (Ret VUndefined s1)"
    by (simp add: handleThen_afterRead afterRead_def once_def del: handleThen.simps)
next
  assume "then_prop (objs s ob) = Data t"
  then show "getThen (Suc n) (VObj ob) s =
        Some (Ret t (s\<lparr>trace := trace s @ [EvGetThen (VObj ob)]\<rparr>))"
    by (rule getThen_data)
next
  assume "then_prop (objs s ob) = Data t \<and> \<not> isFunction s t"
  then show "traceOf (handleThen (Suc (Suc n)) p (VObj ob) s) =
        Some (trace s @ [EvGetThen (VObj ob)])"
    using handleThen_data_trace by blast
qed

text \<open>
  The theorem at the throwing accessor and at the data property of \<open>throwing\<close>, and
  the run on the accessor of \<open>flipflop\<close>: the first read returns a function, a second read would return
  \<open>undefined\<close>; \<open>_handleThen\<close> calls the function it read (the container is resolved
  with 1), the trace has one read, and the variable shows the getter ran once.
\<close>

theorem then_read_once_witness:
  "\<not> Option.is_none (getThen (Suc (Suc 0)) (VObj 1) (newLatch (newPromise (init throwing)))) \<and>
   \<not> wasCalled (world_of (the (getThen (Suc (Suc 0)) (VObj 1) (newLatch (newPromise (init throwing))))))
        (nextl (newPromise (init throwing))) \<and>
   state (promises (world_of (the (getThen (Suc (Suc 0)) (VObj 1) (newLatch (newPromise (init throwing))))))
        0) = Pending \<and>
   settled (handleThen (Suc (Suc (Suc 0))) 0 (VObj 1) (newPromise (init throwing))) 0 =
     Some (Rejected, VStr ''boom'') \<and>
   then_prop (objs (newPromise (init throwing)) 2) = Data (VNum 5) \<and>
   \<not> isFunction (newPromise (init throwing)) (VNum 5) \<and>
   traceOf (handleThen (Suc (Suc (Suc (Suc 0)))) 0 (VObj 2) (newPromise (init throwing))) =
     Some (trace (newPromise (init throwing)) @ [EvGetThen (VObj 2)]) \<and>
   settled (handleThen 10 0 (VObj 1) flipflopStart) 0 = Some (Resolved, VNum 1) \<and>
   traceOf (handleThen 10 0 (VObj 1) flipflopStart) =
     Some [EvGetThen (VObj 1),
           EvInvoke 2 [VClosure (FOnceResolver 0 0), VClosure (FOnceReject 0 0)]] \<and>
   map_option (\<lambda>c. vars (world_of c) 0) (handleThen 10 0 (VObj 1) flipflopStart) = Some VUndefined"
proof -
  let ?s = "newPromise (init throwing)"
  let ?g = "getThen (Suc (Suc 0)) (VObj 1) (newLatch ?s)"
  have h1: "\<not> Option.is_none ?g" by code_simp
  have "case ?g of Some (Thrown e s1) \<Rightarrow> e = VStr ''boom'' | _ \<Rightarrow> False" by code_simp
  then have e1: "?g = Some (Thrown (VStr ''boom'') (world_of (the ?g)))"
    by (auto split: option.splits completion.splits)
  have h2: "\<not> wasCalled (world_of (the ?g)) (nextl ?s)" by code_simp
  have h3: "state (promises (world_of (the ?g)) 0) = Pending" by code_simp
  have d1: "then_prop (objs ?s 2) = Data (VNum 5)" by code_simp
  have d2: "\<not> isFunction ?s (VNum 5)" by simp
  note t = then_read_once [where n = "Suc (Suc 0)" and p = 0 and v = "VObj 1" and s = ?s
      and e = "VStr ''boom''" and ?s1.0 = "world_of (the ?g)" and ob = 2 and t = "VNum 5"]
  from t e1 h2 h3
  have c1: "settled (handleThen (Suc (Suc (Suc 0))) 0 (VObj 1) ?s) 0 = Some (Rejected, VStr ''boom'')"
    by blast
  from t d1 d2
  have c0: "traceOf (handleThen (Suc (Suc (Suc (Suc 0)))) 0 (VObj 2) ?s) =
      Some (trace ?s @ [EvGetThen (VObj 2)])"
    by blast
  have c2: "settled (handleThen 10 0 (VObj 1) flipflopStart) 0 = Some (Resolved, VNum 1)"
    by code_simp
  have c3: "traceOf (handleThen 10 0 (VObj 1) flipflopStart) =
     Some [EvGetThen (VObj 1),
           EvInvoke 2 [VClosure (FOnceResolver 0 0), VClosure (FOnceReject 0 0)]]"
    by code_simp
  have c4: "map_option (\<lambda>c. vars (world_of c) 0) (handleThen 10 0 (VObj 1) flipflopStart) =
     Some VUndefined"
    by code_simp
  show ?thesis
    by (rule conjI[OF h1 conjI[OF h2 conjI[OF h3 conjI[OF c1 conjI[OF d1 conjI[OF d2
          conjI[OF c0 conjI[OF c2 conjI[OF c3 c4]]]]]]]]])
qed

section \<open>What then forwards to the new promise\<close>

text \<open>
  C4. \<open>then(onFulfilled, onRejected)\<close> on an instance \<open>p\<close> returns a new instance at once
  (with three units of fuel or more); the new instance is pending with an empty queue, the
  callback \<open>reaction onFulfilled onRejected\<close> of the new instance is the last of the queue
  of \<open>p\<close>, \<open>p\<close> keeps its state and its value, and a drain of \<open>p\<close> is handed to the
  scheduler when \<open>p\<close> is settled already. Settling \<open>p\<close> while it is pending stores the
  state and the value, keeps the queue and hands the scheduler the drain of the member
  that matches the state; and the turn whose unit of work is a drain runs \<open>fire\<close>.

  A drain of \<open>p\<close> that finds the callback of \<open>then\<close> for \<open>q\<close> first in the queue, in a
  world \<open>d\<close>, shifts it and calls the handler its member \<open>m\<close> guards with the value of
  \<open>p\<close>. When the handler returns \<open>r\<close>, the drain goes on from what \<open>_resolver\<close> of \<open>q\<close>
  does with \<open>r\<close>. When it throws \<open>e\<close>, the drain goes on from \<open>_reject\<close> of \<open>q\<close> with \<open>e\<close>,
  and \<open>q\<close>, pending when the handler threw, is rejected with \<open>e\<close> when the drain returns.
  With no function as the handler, a drain of fulfilment goes on from what \<open>_resolver\<close> of
  \<open>q\<close> does with the value of \<open>p\<close>, and a drain of rejection goes on from \<open>_reject\<close> of \<open>q\<close>
  with the value of \<open>p\<close>, so that \<open>q\<close>, pending before, is rejected with it when the drain
  returns. No drain changes an instance that is settled.
\<close>

theorem then_forwards:
  "call (Suc (Suc (Suc k))) (VClosure (FThen p)) [onF, onR] s =
     Some (Ret (VPromise (nextp s)) (addCallback p (reaction onF onR (nextp s)) (newPromise s))) \<and>
   (p < nextp s \<longrightarrow>
      (let s' = doing (call (Suc (Suc (Suc k))) (VClosure (FThen p)) [onF, onR]) s in
         promises s' (nextp s) = \<lparr>value_p = VNull, state = Pending, callbacks = []\<rparr> \<and>
         callbacks (promises s' p) = callbacks (promises s p) @ [reaction onF onR (nextp s)] \<and>
         state (promises s' p) = state (promises s p) \<and>
         value_p (promises s' p) = value_p (promises s p) \<and>
         tasks s' = tasks s @ drainOf (state (promises s p)) p \<and>
         trace s' = trace s @ [EvRegister p (reaction onF onR (nextp s))])) \<and>
   (state (promises s p) = Pending \<and> st \<noteq> Pending \<longrightarrow>
      (let s' = transition p st v s in
         state (promises s' p) = st \<and> value_p (promises s' p) = v \<and>
         callbacks (promises s' p) = callbacks (promises s p) \<and>
         tasks s' = tasks s @ drainOf st p)) \<and>
   (tasks d = TFire p m # ts \<longrightarrow>
      runTask j d = map_option world_of (fire j p m (d\<lparr>tasks := ts\<rparr>))) \<and>
   (callbacks (promises d p) = reaction onF onR q # rest \<and>
    isFunction d (handlerOf m onF onR) \<and>
    call (Suc n) (handlerOf m onF onR) [value_p (promises d p)]
      (shifted p (reaction onF onR q) rest d) = Some (Ret r sh) \<longrightarrow>
      fire (Suc (Suc (Suc n))) p m d =
        (case resolver n q r sh of
           None \<Rightarrow> None
         | Some c \<Rightarrow> fire (Suc (Suc n)) p m (world_of c))) \<and>
   (callbacks (promises d p) = reaction onF onR q # rest \<and>
    isFunction d (handlerOf m onF onR) \<and>
    call (Suc n) (handlerOf m onF onR) [value_p (promises d p)]
      (shifted p (reaction onF onR q) rest d) = Some (Thrown e sh) \<longrightarrow>
      fire (Suc (Suc (Suc n))) p m d = fire (Suc (Suc n)) p m (reject q e sh)) \<and>
   (callbacks (promises d p) = reaction onF onR q # rest \<and>
    isFunction d (handlerOf m onF onR) \<and>
    call (Suc n) (handlerOf m onF onR) [value_p (promises d p)]
      (shifted p (reaction onF onR q) rest d) = Some (Thrown e sh) \<and>
    q < nextp sh \<and> state (promises sh q) = Pending \<and>
    fire (Suc (Suc (Suc n))) p m d = Some c \<longrightarrow>
      settled (Some c) q = Some (Rejected, e)) \<and>
   (callbacks (promises d p) = reaction onF onR q # rest \<and> \<not> isFunction d onF \<longrightarrow>
      fire (Suc (Suc (Suc n))) p OnFulfilled d =
        (case resolver n q (value_p (promises d p)) (shifted p (reaction onF onR q) rest d) of
           None \<Rightarrow> None
         | Some c \<Rightarrow> fire (Suc (Suc n)) p OnFulfilled (world_of c))) \<and>
   (callbacks (promises d p) = reaction onF onR q # rest \<and> \<not> isFunction d onR \<longrightarrow>
      fire (Suc (Suc (Suc n))) p OnRejected d =
        fire (Suc (Suc n)) p OnRejected
          (reject q (value_p (promises d p)) (shifted p (reaction onF onR q) rest d))) \<and>
   (callbacks (promises d p) = reaction onF onR q # rest \<and> \<not> isFunction d onR \<and>
    q \<noteq> p \<and> q < nextp d \<and> state (promises d q) = Pending \<and>
    fire (Suc (Suc (Suc n))) p OnRejected d = Some c \<longrightarrow>
      settled (Some c) q = Some (Rejected, value_p (promises d p))) \<and>
   (q < nextp d \<and> state (promises d q) \<noteq> Pending \<and> fire j p m d = Some c \<longrightarrow>
      settled (Some c) q = Some (state (promises d q), value_p (promises d q)))"
proof -
  have c1: "call (Suc (Suc (Suc k))) (VClosure (FThen p)) [onF, onR] s =
     Some (Ret (VPromise (nextp s)) (addCallback p (reaction onF onR (nextp s)) (newPromise s)))"
    by (rule then_call)
  have c2: "p < nextp s \<longrightarrow>
      (let s' = doing (call (Suc (Suc (Suc k))) (VClosure (FThen p)) [onF, onR]) s in
         promises s' (nextp s) = \<lparr>value_p = VNull, state = Pending, callbacks = []\<rparr> \<and>
         callbacks (promises s' p) = callbacks (promises s p) @ [reaction onF onR (nextp s)] \<and>
         state (promises s' p) = state (promises s p) \<and>
         value_p (promises s' p) = value_p (promises s p) \<and>
         tasks s' = tasks s @ drainOf (state (promises s p)) p \<and>
         trace s' = trace s @ [EvRegister p (reaction onF onR (nextp s))])"
    using then_effect [of p s k onF onR] by (rule impI)
  have cs: "state (promises s p) = Pending \<and> st \<noteq> Pending \<longrightarrow>
      (let s' = transition p st v s in
         state (promises s' p) = st \<and> value_p (promises s' p) = v \<and>
         callbacks (promises s' p) = callbacks (promises s p) \<and>
         tasks s' = tasks s @ drainOf st p)"
    by (simp add: transition_def executeCallbacks_def runAsync_def drainOf_def Let_def)
  have ct: "tasks d = TFire p m # ts \<longrightarrow>
      runTask j d = map_option world_of (fire j p m (d\<lparr>tasks := ts\<rparr>))"
    by (simp del: fire.simps)
  have c3: "callbacks (promises d p) = reaction onF onR q # rest \<and>
    isFunction d (handlerOf m onF onR) \<and>
    call (Suc n) (handlerOf m onF onR) [value_p (promises d p)]
      (shifted p (reaction onF onR q) rest d) = Some (Ret r sh) \<longrightarrow>
      fire (Suc (Suc (Suc n))) p m d =
        (case resolver n q r sh of
           None \<Rightarrow> None
         | Some c \<Rightarrow> fire (Suc (Suc n)) p m (world_of c))"
    using drain_returns [of d p onF onR q rest m n r sh] by blast
  have c4: "callbacks (promises d p) = reaction onF onR q # rest \<and>
    isFunction d (handlerOf m onF onR) \<and>
    call (Suc n) (handlerOf m onF onR) [value_p (promises d p)]
      (shifted p (reaction onF onR q) rest d) = Some (Thrown e sh) \<longrightarrow>
      fire (Suc (Suc (Suc n))) p m d = fire (Suc (Suc n)) p m (reject q e sh)"
    using drain_throws [of d p onF onR q rest m n e sh] by blast
  have c5: "callbacks (promises d p) = reaction onF onR q # rest \<and>
    isFunction d (handlerOf m onF onR) \<and>
    call (Suc n) (handlerOf m onF onR) [value_p (promises d p)]
      (shifted p (reaction onF onR q) rest d) = Some (Thrown e sh) \<and>
    q < nextp sh \<and> state (promises sh q) = Pending \<and>
    fire (Suc (Suc (Suc n))) p m d = Some c \<longrightarrow>
      settled (Some c) q = Some (Rejected, e)"
    using drain_throws_end [of d p onF onR q rest m n e sh c] by blast
  have c6: "callbacks (promises d p) = reaction onF onR q # rest \<and> \<not> isFunction d onF \<longrightarrow>
      fire (Suc (Suc (Suc n))) p OnFulfilled d =
        (case resolver n q (value_p (promises d p)) (shifted p (reaction onF onR q) rest d) of
           None \<Rightarrow> None
         | Some c \<Rightarrow> fire (Suc (Suc n)) p OnFulfilled (world_of c))"
    using drain_omitted_fulfilled [of d p onF onR q rest n] by blast
  have c7: "callbacks (promises d p) = reaction onF onR q # rest \<and> \<not> isFunction d onR \<longrightarrow>
      fire (Suc (Suc (Suc n))) p OnRejected d =
        fire (Suc (Suc n)) p OnRejected
          (reject q (value_p (promises d p)) (shifted p (reaction onF onR q) rest d))"
    using drain_omitted_rejected [of d p onF onR q rest n] by blast
  have c8: "callbacks (promises d p) = reaction onF onR q # rest \<and> \<not> isFunction d onR \<and>
    q \<noteq> p \<and> q < nextp d \<and> state (promises d q) = Pending \<and>
    fire (Suc (Suc (Suc n))) p OnRejected d = Some c \<longrightarrow>
      settled (Some c) q = Some (Rejected, value_p (promises d p))"
    using drain_omitted_rejected_end [of d p onF onR q rest n c] by blast
  have c9: "q < nextp d \<and> state (promises d q) \<noteq> Pending \<and> fire j p m d = Some c \<longrightarrow>
      settled (Some c) q = Some (state (promises d q), value_p (promises d q))"
    using settled_stays_fire [of q d j p m c] by blast
  show ?thesis
    by (rule conjI[OF c1 conjI[OF c2 conjI[OF cs conjI[OF ct conjI[OF c3 conjI[OF c4
          conjI[OF c5 conjI[OF c6 conjI[OF c7 conjI[OF c8 c9]]]]]]]]]])
qed

text \<open>
  The theorem over the handlers \<^verbatim>\<open>v => 2\<close> (function 1) and \<^verbatim>\<open>v => { throw 'err' }\<close>
  (function 2). \<open>then\<close> is called with fuel 4 on the instance 0 of \<open>settledSeven\<close>, which
  is fulfilled with 7. A pending instance 0 on which \<open>then\<close> was called is fulfilled with
  7, and the turn that follows resolves the new instance with 2. Then a drain of the
  instance 0 runs, with fuel 4, in each of the worlds \<open>then\<close> leaves: on the source
  fulfilled with 7 for a fulfilment handler that returns 2, that throws, and that is
  omitted; on the source rejected with \<open>'no'\<close> for a rejection handler that returns 2, that
  throws, and that is omitted. The last line is the source after the first drain.
\<close>

theorem then_forwards_witness:
  "0 < nextp settledSeven \<and>
   (let s' = doing (call (Suc (Suc (Suc (Suc 0)))) (VClosure (FThen 0)) [VObj 1, VUndefined])
               settledSeven in
      promises s' (nextp settledSeven) = \<lparr>value_p = VNull, state = Pending, callbacks = []\<rparr> \<and>
      callbacks (promises s' 0) =
        callbacks (promises settledSeven 0) @ [reaction (VObj 1) VUndefined (nextp settledSeven)] \<and>
      state (promises s' 0) = state (promises settledSeven 0) \<and>
      value_p (promises s' 0) = value_p (promises settledSeven 0) \<and>
      tasks s' = tasks settledSeven @ drainOf (state (promises settledSeven 0)) 0 \<and>
      trace s' =
        trace settledSeven @ [EvRegister 0 (reaction (VObj 1) VUndefined (nextp settledSeven))]) \<and>
   state (promises (thenOn (VObj 1) VUndefined (newPromise (init returning))) 0) = Pending \<and>
   (let s' = transition 0 Resolved (VNum 7) (thenOn (VObj 1) VUndefined (newPromise (init returning))) in
      state (promises s' 0) = Resolved \<and> value_p (promises s' 0) = VNum 7 \<and>
      callbacks (promises s' 0) =
        callbacks (promises (thenOn (VObj 1) VUndefined (newPromise (init returning))) 0) \<and>
      tasks s' =
        tasks (thenOn (VObj 1) VUndefined (newPromise (init returning))) @ drainOf Resolved 0) \<and>
   map_option (\<lambda>s. (state (promises s 1), value_p (promises s 1)))
       (runTask (Suc (Suc (Suc (Suc 0))))
          (transition 0 Resolved (VNum 7) (thenOn (VObj 1) VUndefined (newPromise (init returning))))) =
     Some (Resolved, VNum 2) \<and>
   nextp settledSeven = 1 \<and> callbacks (promises settledSeven 0) = [] \<and>
   state (promises settledSeven 0) = Resolved \<and> value_p (promises settledSeven 0) = VNum 7 \<and>
   state (promises failedNo 0) = Rejected \<and> value_p (promises failedNo 0) = VStr ''no'' \<and>
   callbacks (promises (thenOn (VObj 1) VUndefined settledSeven) 0) =
     [reaction (VObj 1) VUndefined 1] \<and>
   settled (fire (Suc (Suc (Suc (Suc 0)))) 0 OnFulfilled (thenOn (VObj 1) VUndefined settledSeven)) 1 =
     Some (Resolved, VNum 2) \<and>
   settled (fire (Suc (Suc (Suc (Suc 0)))) 0 OnFulfilled (thenOn (VObj 2) VUndefined settledSeven)) 1 =
     Some (Rejected, VStr ''err'') \<and>
   settled (fire (Suc (Suc (Suc (Suc 0)))) 0 OnFulfilled (thenOn VUndefined VUndefined settledSeven)) 1 =
     Some (Resolved, VNum 7) \<and>
   settled (fire (Suc (Suc (Suc (Suc 0)))) 0 OnRejected (thenOn VUndefined (VObj 1) failedNo)) 1 =
     Some (Resolved, VNum 2) \<and>
   settled (fire (Suc (Suc (Suc (Suc 0)))) 0 OnRejected (thenOn VUndefined (VObj 2) failedNo)) 1 =
     Some (Rejected, VStr ''err'') \<and>
   settled (fire (Suc (Suc (Suc (Suc 0)))) 0 OnRejected (thenOn VUndefined VUndefined failedNo)) 1 =
     Some (Rejected, VStr ''no'') \<and>
   tasksOf (fire (Suc (Suc (Suc (Suc 0)))) 0 OnRejected (thenOn VUndefined VUndefined failedNo)) =
     Some [TFire 0 OnRejected, TFire 0 OnRejected, TFire 1 OnRejected] \<and>
   settled (fire (Suc (Suc (Suc (Suc 0)))) 0 OnFulfilled (thenOn (VObj 1) VUndefined settledSeven)) 0 =
     Some (Resolved, VNum 7)"
proof -
  let ?A = "thenOn (VObj 1) VUndefined settledSeven"
  let ?B = "thenOn (VObj 2) VUndefined settledSeven"
  let ?C = "thenOn VUndefined VUndefined settledSeven"
  let ?D = "thenOn VUndefined (VObj 1) failedNo"
  let ?E = "thenOn VUndefined (VObj 2) failedNo"
  let ?F = "thenOn VUndefined VUndefined failedNo"
  let ?four = "Suc (Suc (Suc (Suc 0)))"
  (* The call of then. *)
  have h0: "0 < nextp settledSeven" by code_simp
  note t0 = then_forwards [where p = 0 and s = settledSeven and k = "Suc 0" and onF = "VObj 1"
      and onR = VUndefined, THEN conjunct2, THEN conjunct1]
  note r0 = mp [OF t0 h0]
  have w: "nextp settledSeven = 1" "callbacks (promises settledSeven 0) = []"
    "state (promises settledSeven 0) = Resolved" "value_p (promises settledSeven 0) = VNum 7"
    "state (promises failedNo 0) = Rejected" "value_p (promises failedNo 0) = VStr ''no''"
    by code_simp+
  (* Settling the source after then, and the turn that follows. *)
  let ?P = "thenOn (VObj 1) VUndefined (newPromise (init returning))"
  let ?S = "transition 0 Resolved (VNum 7) ?P"
  have hs: "state (promises ?P 0) = Pending" by code_simp
  have hs': "Resolved \<noteq> Pending" by simp
  note ts = then_forwards [where s = ?P and p = 0 and st = Resolved and v = "VNum 7",
      THEN conjunct2, THEN conjunct2, THEN conjunct1]
  note rs = mp [OF ts conjI [OF hs hs']]
  have ht: "tasks ?S = TFire 0 OnFulfilled # []" by code_simp
  note tt = then_forwards [where d = ?S and p = 0 and m = OnFulfilled and ts = "[]" and j = ?four,
      THEN conjunct2, THEN conjunct2, THEN conjunct2, THEN conjunct1]
  note et = mp [OF tt ht]
  have "map_option (\<lambda>s. (state (promises s 1), value_p (promises s 1)))
          (map_option world_of (fire ?four 0 OnFulfilled (?S\<lparr>tasks := []\<rparr>))) =
        Some (Resolved, VNum 2)"
    by code_simp
  with et have rt: "map_option (\<lambda>s. (state (promises s 1), value_p (promises s 1)))
      (runTask ?four ?S) = Some (Resolved, VNum 2)"
    by (simp only:)
  (* A fulfilment handler that returns. *)
  let ?a = "call (Suc (Suc 0)) (handlerOf OnFulfilled (VObj 1) VUndefined)
      [value_p (promises ?A 0)] (shifted 0 (reaction (VObj 1) VUndefined 1) [] ?A)"
  have qa: "callbacks (promises ?A 0) = reaction (VObj 1) VUndefined 1 # []" by code_simp
  have fa: "isFunction ?A (handlerOf OnFulfilled (VObj 1) VUndefined)" by code_simp
  have "case ?a of Some (Ret r s) \<Rightarrow> r = VNum 2 | _ \<Rightarrow> False" by code_simp
  then have a: "?a = Some (Ret (VNum 2) (world_of (the ?a)))"
    by (rule returned_value)
  note ta = then_forwards [where d = ?A and p = 0 and q = 1 and rest = "[]" and onF = "VObj 1"
      and onR = VUndefined and m = OnFulfilled and n = "Suc 0" and r = "VNum 2"
      and sh = "world_of (the ?a)",
      THEN conjunct2, THEN conjunct2, THEN conjunct2, THEN conjunct2, THEN conjunct1]
  note ea = mp [OF ta conjI [OF qa conjI [OF fa a]]]
  have "settled (case resolver (Suc 0) 1 (VNum 2) (world_of (the ?a)) of
           None \<Rightarrow> None
         | Some c \<Rightarrow> fire (Suc (Suc (Suc 0))) 0 OnFulfilled (world_of c)) 1 = Some (Resolved, VNum 2)"
    by code_simp
  with ea have ra: "settled (fire ?four 0 OnFulfilled ?A) 1 = Some (Resolved, VNum 2)"
    by (simp only:)
  (* A fulfilment handler that throws. *)
  let ?b = "call (Suc (Suc 0)) (handlerOf OnFulfilled (VObj 2) VUndefined)
      [value_p (promises ?B 0)] (shifted 0 (reaction (VObj 2) VUndefined 1) [] ?B)"
  have qb: "callbacks (promises ?B 0) = reaction (VObj 2) VUndefined 1 # []" by code_simp
  have fb: "isFunction ?B (handlerOf OnFulfilled (VObj 2) VUndefined)" by code_simp
  have "case ?b of Some (Thrown e s) \<Rightarrow> e = VStr ''err'' | _ \<Rightarrow> False" by code_simp
  then have b: "?b = Some (Thrown (VStr ''err'') (world_of (the ?b)))"
    by (rule thrown_value)
  have pb: "1 < nextp (world_of (the ?b))" "state (promises (world_of (the ?b)) 1) = Pending"
    by code_simp+
  have "\<not> Option.is_none (fire ?four 0 OnFulfilled ?B)" by code_simp
  then have sb: "fire ?four 0 OnFulfilled ?B = Some (the (fire ?four 0 OnFulfilled ?B))"
    by (rule returned_some)
  note tb = then_forwards [where d = ?B and p = 0 and q = 1 and rest = "[]" and onF = "VObj 2"
      and onR = VUndefined and m = OnFulfilled and n = "Suc 0" and e = "VStr ''err''"
      and sh = "world_of (the ?b)" and c = "the (fire ?four 0 OnFulfilled ?B)",
      THEN conjunct2, THEN conjunct2, THEN conjunct2, THEN conjunct2, THEN conjunct2,
      THEN conjunct2, THEN conjunct1]
  note eb = mp [OF tb conjI [OF qb conjI [OF fb conjI [OF b conjI [OF pb(1) conjI [OF pb(2) sb]]]]]]
  from eb sb have rb: "settled (fire ?four 0 OnFulfilled ?B) 1 = Some (Rejected, VStr ''err'')"
    by (simp only:)
  (* No fulfilment handler. *)
  have qc: "callbacks (promises ?C 0) = reaction VUndefined VUndefined 1 # []" by code_simp
  have fc: "\<not> isFunction ?C VUndefined" by code_simp
  note tc = then_forwards [where d = ?C and p = 0 and q = 1 and rest = "[]" and onF = VUndefined
      and onR = VUndefined and n = "Suc 0",
      THEN conjunct2, THEN conjunct2, THEN conjunct2, THEN conjunct2, THEN conjunct2,
      THEN conjunct2, THEN conjunct2, THEN conjunct1]
  note ec = mp [OF tc conjI [OF qc fc]]
  have "settled (case resolver (Suc 0) 1 (value_p (promises ?C 0))
             (shifted 0 (reaction VUndefined VUndefined 1) [] ?C) of
           None \<Rightarrow> None
         | Some c \<Rightarrow> fire (Suc (Suc (Suc 0))) 0 OnFulfilled (world_of c)) 1 = Some (Resolved, VNum 7)"
    by code_simp
  with ec have rc: "settled (fire ?four 0 OnFulfilled ?C) 1 = Some (Resolved, VNum 7)"
    by (simp only:)
  (* A rejection handler that returns. *)
  let ?d = "call (Suc (Suc 0)) (handlerOf OnRejected VUndefined (VObj 1))
      [value_p (promises ?D 0)] (shifted 0 (reaction VUndefined (VObj 1) 1) [] ?D)"
  have qd: "callbacks (promises ?D 0) = reaction VUndefined (VObj 1) 1 # []" by code_simp
  have fd: "isFunction ?D (handlerOf OnRejected VUndefined (VObj 1))" by code_simp
  have "case ?d of Some (Ret r s) \<Rightarrow> r = VNum 2 | _ \<Rightarrow> False" by code_simp
  then have d: "?d = Some (Ret (VNum 2) (world_of (the ?d)))"
    by (rule returned_value)
  note td = then_forwards [where d = ?D and p = 0 and q = 1 and rest = "[]" and onF = VUndefined
      and onR = "VObj 1" and m = OnRejected and n = "Suc 0" and r = "VNum 2"
      and sh = "world_of (the ?d)",
      THEN conjunct2, THEN conjunct2, THEN conjunct2, THEN conjunct2, THEN conjunct1]
  note ed = mp [OF td conjI [OF qd conjI [OF fd d]]]
  have "settled (case resolver (Suc 0) 1 (VNum 2) (world_of (the ?d)) of
           None \<Rightarrow> None
         | Some c \<Rightarrow> fire (Suc (Suc (Suc 0))) 0 OnRejected (world_of c)) 1 = Some (Resolved, VNum 2)"
    by code_simp
  with ed have rd: "settled (fire ?four 0 OnRejected ?D) 1 = Some (Resolved, VNum 2)"
    by (simp only:)
  (* A rejection handler that throws. *)
  let ?e = "call (Suc (Suc 0)) (handlerOf OnRejected VUndefined (VObj 2))
      [value_p (promises ?E 0)] (shifted 0 (reaction VUndefined (VObj 2) 1) [] ?E)"
  have qe: "callbacks (promises ?E 0) = reaction VUndefined (VObj 2) 1 # []" by code_simp
  have fe: "isFunction ?E (handlerOf OnRejected VUndefined (VObj 2))" by code_simp
  have "case ?e of Some (Thrown e s) \<Rightarrow> e = VStr ''err'' | _ \<Rightarrow> False" by code_simp
  then have e: "?e = Some (Thrown (VStr ''err'') (world_of (the ?e)))"
    by (rule thrown_value)
  note te = then_forwards [where d = ?E and p = 0 and q = 1 and rest = "[]" and onF = VUndefined
      and onR = "VObj 2" and m = OnRejected and n = "Suc 0" and e = "VStr ''err''"
      and sh = "world_of (the ?e)",
      THEN conjunct2, THEN conjunct2, THEN conjunct2, THEN conjunct2, THEN conjunct2,
      THEN conjunct1]
  note ee = mp [OF te conjI [OF qe conjI [OF fe e]]]
  have "settled (fire (Suc (Suc (Suc 0))) 0 OnRejected (reject 1 (VStr ''err'') (world_of (the ?e)))) 1 =
      Some (Rejected, VStr ''err'')"
    by code_simp
  with ee have re: "settled (fire ?four 0 OnRejected ?E) 1 = Some (Rejected, VStr ''err'')"
    by (simp only:)
  (* No rejection handler. *)
  have qf: "callbacks (promises ?F 0) = reaction VUndefined VUndefined 1 # []" by code_simp
  have ff: "\<not> isFunction ?F VUndefined" by code_simp
  have pf: "(1::nat) \<noteq> 0" "1 < nextp ?F" "state (promises ?F 1) = Pending" by code_simp+
  have "\<not> Option.is_none (fire ?four 0 OnRejected ?F)" by code_simp
  then have sf: "fire ?four 0 OnRejected ?F = Some (the (fire ?four 0 OnRejected ?F))"
    by (rule returned_some)
  note tf = then_forwards [where d = ?F and p = 0 and q = 1 and rest = "[]" and onF = VUndefined
      and onR = VUndefined and n = "Suc 0" and c = "the (fire ?four 0 OnRejected ?F)",
      THEN conjunct2, THEN conjunct2, THEN conjunct2, THEN conjunct2, THEN conjunct2,
      THEN conjunct2, THEN conjunct2, THEN conjunct2, THEN conjunct2, THEN conjunct1]
  note ef = mp [OF tf conjI [OF qf conjI [OF ff conjI [OF pf(1) conjI [OF pf(2) conjI [OF pf(3) sf]]]]]]
  have vf: "value_p (promises ?F 0) = VStr ''no''" by code_simp
  from ef sf vf have rf: "settled (fire ?four 0 OnRejected ?F) 1 = Some (Rejected, VStr ''no'')"
    by (simp only:)
  note tg = then_forwards [where d = ?F and p = 0 and q = 1 and rest = "[]" and onF = VUndefined
      and onR = VUndefined and n = "Suc 0",
      THEN conjunct2, THEN conjunct2, THEN conjunct2, THEN conjunct2, THEN conjunct2,
      THEN conjunct2, THEN conjunct2, THEN conjunct2, THEN conjunct1]
  note eg = mp [OF tg conjI [OF qf ff]]
  have "tasksOf (fire (Suc (Suc (Suc 0))) 0 OnRejected
          (reject 1 (value_p (promises ?F 0)) (shifted 0 (reaction VUndefined VUndefined 1) [] ?F))) =
      Some [TFire 0 OnRejected, TFire 0 OnRejected, TFire 1 OnRejected]"
    by code_simp
  with eg have rg: "tasksOf (fire ?four 0 OnRejected ?F) =
      Some [TFire 0 OnRejected, TFire 0 OnRejected, TFire 1 OnRejected]"
    by (simp only:)
  (* The source stays as it is. *)
  have ph: "0 < nextp ?A" "state (promises ?A 0) \<noteq> Pending" by code_simp+
  have "\<not> Option.is_none (fire ?four 0 OnFulfilled ?A)" by code_simp
  then have sh: "fire ?four 0 OnFulfilled ?A = Some (the (fire ?four 0 OnFulfilled ?A))"
    by (rule returned_some)
  note th = then_forwards [where d = ?A and p = 0 and q = 0 and m = OnFulfilled and j = ?four
      and c = "the (fire ?four 0 OnFulfilled ?A)",
      THEN conjunct2, THEN conjunct2, THEN conjunct2, THEN conjunct2, THEN conjunct2,
      THEN conjunct2, THEN conjunct2, THEN conjunct2, THEN conjunct2, THEN conjunct2]
  note eh = mp [OF th conjI [OF ph(1) conjI [OF ph(2) sh]]]
  have vh: "state (promises ?A 0) = Resolved" "value_p (promises ?A 0) = VNum 7" by code_simp+
  from eh sh vh have rh: "settled (fire ?four 0 OnFulfilled ?A) 0 = Some (Resolved, VNum 7)"
    by (simp only:)
  have qa': "callbacks (promises ?A 0) = [reaction (VObj 1) VUndefined 1]" by (rule qa)
  show ?thesis
    by (rule conjI[OF h0 conjI[OF r0 conjI[OF hs conjI[OF rs conjI[OF rt conjI[OF w(1)
          conjI[OF w(2) conjI[OF w(3) conjI[OF w(4) conjI[OF w(5) conjI[OF w(6) conjI[OF qa'
          conjI[OF ra conjI[OF rb conjI[OF rc conjI[OF rd conjI[OF re conjI[OF rf
          conjI[OF rg rh]]]]]]]]]]]]]]]]]]])
qed

text \<open>
  The same through the scheduler, in both orders. \<^verbatim>\<open>p = HelloPromise.resolve(7)\<close> hands a
  drain of \<open>p\<close> to the scheduler and \<^verbatim>\<open>q = p.then(v => 2)\<close> a second one: the first turn
  fires the callback and resolves \<open>q\<close> with 2, the second finds the queue empty. When
  \<open>then\<close> is called on a pending instance that is fulfilled with 7 afterwards, the one
  drain settling it scheduled does the same. A \<open>then\<close> with no handlers hands a rejection
  reason on.
\<close>

lemma forwarded_by_the_scheduler:
  "tasks (thenOn (VObj 1) VUndefined settledSeven) = [TFire 0 OnFulfilled, TFire 0 OnFulfilled] \<and>
   state (promises (thenOn (VObj 1) VUndefined settledSeven) 1) = Pending \<and>
   map_option (\<lambda>s. (state (promises s 1), value_p (promises s 1), callbacks (promises s 0)))
       (runTask 4 (thenOn (VObj 1) VUndefined settledSeven)) =
     Some (Resolved, VNum 2, []) \<and>
   map_option (\<lambda>s. (state (promises s 1), value_p (promises s 1), tasks s))
       (runTasks 4 2 (thenOn (VObj 1) VUndefined settledSeven)) =
     Some (Resolved, VNum 2, [TFire 1 OnFulfilled]) \<and>
   tasks (thenOn (VObj 1) VUndefined (newPromise (init returning))) = [] \<and>
   tasks (fulfill 0 (VNum 7) (thenOn (VObj 1) VUndefined (newPromise (init returning)))) =
     [TFire 0 OnFulfilled] \<and>
   map_option (\<lambda>s. (state (promises s 1), value_p (promises s 1), tasks s))
       (runTask 4 (fulfill 0 (VNum 7) (thenOn (VObj 1) VUndefined (newPromise (init returning))))) =
     Some (Resolved, VNum 2, [TFire 1 OnFulfilled]) \<and>
   map_option (\<lambda>s. (state (promises s 1), value_p (promises s 1)))
       (runTask 4 (thenOn VUndefined VUndefined failedNo)) =
     Some (Rejected, VStr ''no'')"
  by code_simp

end
